theory Spec2Isabelle
  imports Complex_Main "HOL-Library.Word" "HOL-Library.Product_Lexorder" "HOL-Library.Sublist"
begin

section \<open>Data model\<close>

text \<open>
  The structs of \<^verbatim>\<open>internal/services/seed_service.go\<close> and the model rows they are
  copied into. Go's \<^verbatim>\<open>uint\<close> and \<^verbatim>\<open>int64\<close> are 64-bit words; they are only
  copied, never computed with. A \<^verbatim>\<open>float64\<close> hotness score read from JSON is a finite
  number (the decoder rejects anything else), and finite floats are ordered as the reals
  they denote, so the score is a \<^typ>\<open>real\<close>. A time is a number of seconds.
\<close>

type_synonym uint = "64 word"
type_synonym int64 = "64 word"
type_synonym time = nat

text \<open>\<^verbatim>\<open>NewsJSONData\<close>: the fields are named by their JSON tags.\<close>

record NewsJSONData =
  title :: string
  content :: string
  summary :: string
  description :: string
  source :: string
  category :: string
  published_at :: string
  created_by :: "uint option"
  is_active :: bool
  source_type :: string
  rss_source_id :: "uint option"
  link :: string
  guid :: string
  author :: string
  image_url :: string
  tags :: string
  language :: string
  view_count :: int64
  like_count :: int64
  comment_count :: int64
  share_count :: int64
  hotness_score :: real
  status :: string
  is_processed :: bool

datatype NewsType = NewsTypeManual | NewsTypeRSS

text \<open>
  \<^verbatim>\<open>models.News\<close>: the fields that \<^verbatim>\<open>SeedNewsFromJSON\<close> assigns, and the
  identifier that the store assigns when the row is inserted (0 before that).
\<close>

record News =
  ID :: nat
  Title :: string
  Content :: string
  Summary :: string
  Description :: string
  Source :: string
  Category :: string
  PublishedAt :: time
  CreatedBy :: "uint option"
  IsActive :: bool
  SourceType :: NewsType
  RSSSourceID :: "uint option"
  Link :: string
  GUID :: string
  Author :: string
  ImageURL :: string
  Tags :: string
  Language :: string
  ViewCount :: int64
  LikeCount :: int64
  CommentCount :: int64
  ShareCount :: int64
  HotnessScore :: real
  Status :: string
  IsProcessed :: bool

section \<open>The query parameters of the news handlers\<close>

text \<open>
  \<^verbatim>\<open>strconv.Atoi\<close> of the Go library: an optional sign, then at least one decimal
  digit and nothing else; the value must fit a 64-bit \<^verbatim>\<open>int\<close>. \<open>None\<close> is the
  error return.
\<close>

definition is_digit :: "char \<Rightarrow> bool" where
  "is_digit c = (48 \<le> (of_char c :: nat) \<and> (of_char c :: nat) \<le> 57)"

definition digit_val :: "char \<Rightarrow> int" where
  "digit_val c = int (of_char c) - 48"

definition digits_val :: "string \<Rightarrow> int" where
  "digits_val ds = foldl (\<lambda>n ch. n * 10 + digit_val ch) 0 ds"

definition numeric :: "string \<Rightarrow> bool" where
  "numeric s =
     (case s of
        [] \<Rightarrow> False
      | c # cs \<Rightarrow>
          (let ds = (if c = CHR ''-'' \<or> c = CHR ''+'' then cs else s)
           in ds \<noteq> [] \<and> list_all is_digit ds))"

definition Atoi :: "string \<Rightarrow> int option" where
  "Atoi s =
     (case s of
        [] \<Rightarrow> None
      | c # cs \<Rightarrow>
          (let ds = (if c = CHR ''-'' \<or> c = CHR ''+'' then cs else s)
           in if ds = [] \<or> \<not> list_all is_digit ds then None
              else (let n = (if c = CHR ''-'' then - digits_val ds else digits_val ds)
                    in if n < - (2 ^ 63) \<or> 2 ^ 63 - 1 < n then None else Some n)))"

text \<open>
  The part of \<^verbatim>\<open>gin.Context\<close> the handlers read: the query string as a map from a
  key to its first value, and the path parameters.
\<close>

type_synonym query = "string \<rightharpoonup> string"

definition DefaultQuery :: "query \<Rightarrow> string \<Rightarrow> string \<Rightarrow> string" where
  "DefaultQuery q key dflt = (case q key of Some v \<Rightarrow> v | None \<Rightarrow> dflt)"

definition Query :: "query \<Rightarrow> string \<Rightarrow> string" where
  "Query q key = (case q key of Some v \<Rightarrow> v | None \<Rightarrow> [])"

text \<open>
  The responses of \<^verbatim>\<open>utils\<close> that these handlers send. \<^verbatim>\<open>news.ToResponse()\<close> is a
  parameter \<open>toR\<close> of every handler, and so is the method of \<^verbatim>\<open>NewsService\<close> that the
  handler calls: it returns \<open>Inl\<close> of the error's text or \<open>Inr\<close> of its result.
\<close>

datatype 'r response =
    BadRequest string
  | InternalServerError string
  | Success "'r list"
  | SuccessWithPagination "'r list" int int int

definition GetAllNews ::
  "(int \<Rightarrow> int \<Rightarrow> string + News list \<times> int) \<Rightarrow> (News \<Rightarrow> 'r) \<Rightarrow> query \<Rightarrow> 'r response" where
  "GetAllNews svc toR q =
     (let pageStr = DefaultQuery q ''page'' ''1'';
          sizeStr = DefaultQuery q ''size'' ''10'';
          page = (case Atoi pageStr of None \<Rightarrow> 1 | Some p \<Rightarrow> if p < 1 then 1 else p);
          size = (case Atoi sizeStr of None \<Rightarrow> 10
                  | Some n \<Rightarrow> if n < 1 \<or> n > 100 then 10 else n)
      in case svc page size of
           Inl err \<Rightarrow> InternalServerError err
         | Inr (newsList, tot) \<Rightarrow> SuccessWithPagination (map toR newsList) tot page size)"

definition SearchNews ::
  "(string \<Rightarrow> int \<Rightarrow> int \<Rightarrow> string + News list \<times> int) \<Rightarrow> (News \<Rightarrow> 'r) \<Rightarrow> query \<Rightarrow> 'r response"
  where
  "SearchNews svc toR q =
     (let queryStr = Query q ''query''
      in if queryStr = [] then BadRequest ''Search query cannot be empty''
         else
           (let pageStr = DefaultQuery q ''page'' ''1'';
                sizeStr = DefaultQuery q ''size'' ''10'';
                page = (case Atoi pageStr of None \<Rightarrow> 1 | Some p \<Rightarrow> if p < 1 then 1 else p);
                size = (case Atoi sizeStr of None \<Rightarrow> 10
                        | Some n \<Rightarrow> if n < 1 \<or> n > 100 then 10 else n)
            in case svc queryStr page size of
                 Inl err \<Rightarrow> InternalServerError err
               | Inr (newsList, tot) \<Rightarrow>
                   SuccessWithPagination (map toR newsList) tot page size))"

definition GetNewsByCategory ::
  "(string \<Rightarrow> int \<Rightarrow> int \<Rightarrow> string + News list \<times> int) \<Rightarrow> (News \<Rightarrow> 'r) \<Rightarrow> string \<Rightarrow> query
     \<Rightarrow> 'r response" where
  "GetNewsByCategory svc toR category_param q =
     (if category_param = [] then BadRequest ''Category is required''
      else
        (let pageStr = DefaultQuery q ''page'' ''1'';
             sizeStr = DefaultQuery q ''size'' ''10'';
             page = (case Atoi pageStr of None \<Rightarrow> 1 | Some p \<Rightarrow> if p < 1 then 1 else p);
             size = (case Atoi sizeStr of None \<Rightarrow> 10
                     | Some n \<Rightarrow> if n < 1 \<or> n > 100 then 10 else n)
         in case svc category_param page size of
              Inl err \<Rightarrow> InternalServerError err
            | Inr (newsList, tot) \<Rightarrow>
                SuccessWithPagination (map toR newsList) tot page size))"

definition GetUnlinkedNews ::
  "(int \<Rightarrow> int \<Rightarrow> string + News list \<times> int) \<Rightarrow> (News \<Rightarrow> 'r) \<Rightarrow> query \<Rightarrow> 'r response" where
  "GetUnlinkedNews svc toR q =
     (let pageStr = DefaultQuery q ''page'' ''1'';
          sizeStr = DefaultQuery q ''size'' ''10'';
          page = (case Atoi pageStr of None \<Rightarrow> 1 | Some p \<Rightarrow> if p < 1 then 1 else p);
          size = (case Atoi sizeStr of None \<Rightarrow> 10
                  | Some n \<Rightarrow> if n < 1 \<or> n > 100 then 10 else n)
      in case svc page size of
           Inl err \<Rightarrow> InternalServerError err
         | Inr (newsList, tot) \<Rightarrow> SuccessWithPagination (map toR newsList) tot page size)"

definition GetHotNews ::
  "(int \<Rightarrow> string + News list) \<Rightarrow> (News \<Rightarrow> 'r) \<Rightarrow> query \<Rightarrow> 'r response" where
  "GetHotNews svc toR q =
     (let limitStr = DefaultQuery q ''limit'' ''10'';
          limit = (case Atoi limitStr of None \<Rightarrow> 10
                   | Some n \<Rightarrow> if n \<le> 0 \<or> n > 100 then 10 else n)
      in case svc limit of
           Inl err \<Rightarrow> InternalServerError err
         | Inr newsList \<Rightarrow> Success (map toR newsList))"

text \<open>
  Modelled from the spec: \<^verbatim>\<open>NewsService.GetHotNews\<close> (internal/services, the news
  service) is not part of the sources at hand. The specification says that it "returns up
  to \<open>limit\<close> records ordered by descending hotness score", with "ties broken
  deterministically (e.g., by identifier)". The table is the list of stored rows.
\<close>

definition hot_key :: "News \<Rightarrow> real \<times> nat" where
  "hot_key r = (- HotnessScore r, ID r)"

definition GetHotNews_service :: "News list \<Rightarrow> int \<Rightarrow> string + News list" where
  "GetHotNews_service tbl limit = Inr (take (nat limit) (sort_key hot_key tbl))"

text \<open>
  What the specification calls an absent or invalid parameter: the key is missing, or
  \<^verbatim>\<open>Atoi\<close> rejects its value, or the number is out of the accepted range.
\<close>

definition page_invalid :: "string option \<Rightarrow> bool" where
  "page_invalid v =
     (case v of None \<Rightarrow> True
      | Some s \<Rightarrow> (case Atoi s of None \<Rightarrow> True | Some n \<Rightarrow> n < 1))"

definition size_invalid :: "string option \<Rightarrow> bool" where
  "size_invalid v =
     (case v of None \<Rightarrow> True
      | Some s \<Rightarrow> (case Atoi s of None \<Rightarrow> True | Some n \<Rightarrow> n < 1 \<or> 100 < n))"

definition limit_invalid :: "string option \<Rightarrow> bool" where
  "limit_invalid v =
     (case v of None \<Rightarrow> True
      | Some s \<Rightarrow> (case Atoi s of None \<Rightarrow> True | Some n \<Rightarrow> n \<le> 0 \<or> 100 < n))"

definition hot_before :: "News \<Rightarrow> News \<Rightarrow> bool" where
  "hot_before a b =
     (HotnessScore b < HotnessScore a \<or> (HotnessScore a = HotnessScore b \<and> ID a \<le> ID b))"

section \<open>The store behind \<^verbatim>\<open>gorm.DB\<close>\<close>

text \<open>
  \<^verbatim>\<open>models.User\<close> and \<^verbatim>\<open>models.RSSSource\<close>: the fields that the seed service sets.
\<close>

record User =
  Username :: string
  Email :: string
  Password :: string
  Role :: string
  Status :: string

record RSSSource =
  Name :: string
  URL :: string
  Category :: string
  Language :: string
  IsActive :: bool
  Description :: string
  Priority :: int
  UpdateFreq :: int

text \<open>
  Go errors. \<open>ErrRecordNotFound\<close> is \<^verbatim>\<open>gorm.ErrRecordNotFound\<close>; \<open>StorageFault\<close> is any
  other error that the store reports; \<open>IOError\<close> is what reading or decoding the file
  reports; \<open>Msg\<close> is \<^verbatim>\<open>errors.New\<close>; \<open>Wrap m e\<close> is
  \<^verbatim>\<open>fmt.Errorf("m: %w", e)\<close>.
\<close>

datatype error =
    ErrRecordNotFound
  | StorageFault string
  | IOError string
  | Msg string
  | Wrap string error

text \<open>\<open>caused_by e c\<close>: \<open>c\<close> is \<open>e\<close> or is wrapped in it (\<^verbatim>\<open>errors.Is\<close>).\<close>

fun caused_by :: "error \<Rightarrow> error \<Rightarrow> bool" where
  "caused_by (Wrap m e) c = (Wrap m e = c \<or> caused_by e c)"
| "caused_by e c = (e = c)"

datatype table = NewsTable | UserTable | RSSTable

datatype db_op =
    OpCount table
  | OpFirst table
  | OpBegin
  | OpCreate table nat
  | OpCommit
  | OpRollback

datatype log_entry =
    LogImportStart string
  | LogNewsExist int
  | LogParsed nat
  | LogTimeWarning nat
  | LogSkipDuplicate string
  | LogLookupError error
  | LogImportDone nat nat
  | LogNewsSeeded
  | LogSeedAllStart
  | LogSeedAllDone
  | LogAdminExists
  | LogAdminCreated string string string
  | LogRSSExist
  | LogRSSFailed string error
  | LogRSSCreated string

text \<open>
  Everything the seed service reads and changes. \<open>db_connected\<close> is \<^verbatim>\<open>s.db != nil\<close>.
  The three tables hold the rows that queries see, in insertion order. \<open>news_seq\<close> is the
  last identifier the store has given to a news row. \<open>faults\<close> lists what the store will
  answer to its next statements: \<open>None\<close> is a statement that runs, \<open>Some m\<close> one that
  fails with the storage error \<open>m\<close>; once the list is used up every statement runs.
  \<open>trace\<close> records every statement sent to the store with its outcome, \<open>logs\<close> the lines
  written with \<^verbatim>\<open>log.Printf\<close>, and \<open>files_read\<close> the paths given to
  \<^verbatim>\<open>os.ReadFile\<close>.
\<close>

record world =
  db_connected :: bool
  news_tbl :: "News list"
  user_tbl :: "User list"
  rss_tbl :: "RSSSource list"
  news_seq :: nat
  faults :: "string option list"
  trace :: "(db_op \<times> string option) list"
  logs :: "log_entry list"
  files_read :: "string list"

definition log_line :: "log_entry \<Rightarrow> world \<Rightarrow> world" where
  "log_line e w = w\<lparr>logs := logs w @ [e]\<rparr>"

text \<open>One statement sent to the store: it takes the next answer and is recorded.\<close>

definition db_call :: "db_op \<Rightarrow> world \<Rightarrow> string option \<times> world" where
  "db_call op w =
     (case faults w of
        [] \<Rightarrow> (None, w\<lparr>trace := trace w @ [(op, None)]\<rparr>)
      | f # fs \<Rightarrow> (f, w\<lparr>faults := fs, trace := trace w @ [(op, f)]\<rparr>))"

text \<open>\<^verbatim>\<open>db.Model(&models.News{}).Count(&count)\<close>\<close>

definition count_news :: "world \<Rightarrow> (error + int) \<times> world" where
  "count_news w =
     (case db_call (OpCount NewsTable) w of
        (Some m, w') \<Rightarrow> (Inl (StorageFault m), w')
      | (None, w') \<Rightarrow> (Inr (int (length (news_tbl w'))), w'))"

text \<open>\<^verbatim>\<open>db.Where("guid = ? OR link = ?", g, l).First(&existingNews)\<close>\<close>

definition first_news :: "string \<Rightarrow> string \<Rightarrow> world \<Rightarrow> (error + News) \<times> world" where
  "first_news g l w =
     (case db_call (OpFirst NewsTable) w of
        (Some m, w') \<Rightarrow> (Inl (StorageFault m), w')
      | (None, w') \<Rightarrow>
          (case find (\<lambda>r. GUID r = g \<or> Link r = l) (news_tbl w') of
             None \<Rightarrow> (Inl ErrRecordNotFound, w')
           | Some r \<Rightarrow> (Inr r, w')))"

text \<open>The store numbers the rows of an insert statement from its sequence.\<close>

fun assign_ids :: "nat \<Rightarrow> News list \<Rightarrow> News list" where
  "assign_ids k [] = []"
| "assign_ids k (r # rs) = r\<lparr>ID := Suc k\<rparr> # assign_ids (Suc k) rs"

text \<open>One insert statement for a group of news rows.\<close>

definition create_news :: "News list \<Rightarrow> world \<Rightarrow> error option \<times> world" where
  "create_news rows w =
     (case db_call (OpCreate NewsTable (length rows)) w of
        (Some m, w') \<Rightarrow> (Some (StorageFault m), w')
      | (None, w') \<Rightarrow>
          (None, w'\<lparr>news_tbl := news_tbl w' @ assign_ids (news_seq w') rows,
                    news_seq := news_seq w' + length rows\<rparr>))"

text \<open>
  \<^verbatim>\<open>tx.CreateInBatches(value, batchSize)\<close>: one insert statement for every
  \<open>batchSize\<close> rows, in order, stopping at the first that fails. The seed service calls
  it with 50; with a batch size of 0, for which gorm's loop does not advance, the model
  inserts nothing.
\<close>

function CreateInBatches :: "News list \<Rightarrow> nat \<Rightarrow> world \<Rightarrow> error option \<times> world" where
  "CreateInBatches rows batchSize w =
     (if rows = [] \<or> batchSize = 0 then (None, w)
      else (case create_news (take batchSize rows) w of
              (Some e, w') \<Rightarrow> (Some e, w')
            | (None, w') \<Rightarrow> CreateInBatches (drop batchSize rows) batchSize w'))"
  by pat_completeness auto
termination
  by (relation "measure (\<lambda>(rows, batchSize, w). length rows)") auto

text \<open>
  \<^verbatim>\<open>db.Transaction(fc)\<close>: begin, run \<open>fc\<close>, and commit if it returns no error. When
  \<open>fc\<close> or the commit fails the transaction is rolled back: the tables are as they were
  at the beginning (the sequence is not), and the error is returned.
\<close>

definition rollback :: "world \<Rightarrow> world \<Rightarrow> world" where
  "rollback w0 w =
     w\<lparr>news_tbl := news_tbl w0, user_tbl := user_tbl w0, rss_tbl := rss_tbl w0,
       trace := trace w @ [(OpRollback, None)]\<rparr>"

definition Transaction :: "(world \<Rightarrow> error option \<times> world) \<Rightarrow> world \<Rightarrow> error option \<times> world"
  where
  "Transaction fc w =
     (case db_call OpBegin w of
        (Some m, w1) \<Rightarrow> (Some (StorageFault m), w1)
      | (None, w1) \<Rightarrow>
          (case fc w1 of
             (Some e, w2) \<Rightarrow> (Some e, rollback w1 w2)
           | (None, w2) \<Rightarrow>
               (case db_call OpCommit w2 of
                  (Some m, w3) \<Rightarrow> (Some (StorageFault m), rollback w1 w3)
                | (None, w3) \<Rightarrow> (None, w3))))"

text \<open>\<^verbatim>\<open>db.Model(&models.User{}).Where("role = ?", "admin").Count(&adminCount)\<close>\<close>

definition count_admins :: "world \<Rightarrow> (error + int) \<times> world" where
  "count_admins w =
     (case db_call (OpCount UserTable) w of
        (Some m, w') \<Rightarrow> (Inl (StorageFault m), w')
      | (None, w') \<Rightarrow> (Inr (int (length (filter (\<lambda>u. Role u = ''admin'') (user_tbl w')))), w'))"

text \<open>\<^verbatim>\<open>db.Where("email = ? OR username = ?", e, n).First(&existingUser)\<close>\<close>

definition first_user :: "string \<Rightarrow> string \<Rightarrow> world \<Rightarrow> (error + User) \<times> world" where
  "first_user e n w =
     (case db_call (OpFirst UserTable) w of
        (Some m, w') \<Rightarrow> (Inl (StorageFault m), w')
      | (None, w') \<Rightarrow>
          (case find (\<lambda>u. Email u = e \<or> Username u = n) (user_tbl w') of
             None \<Rightarrow> (Inl ErrRecordNotFound, w')
           | Some u \<Rightarrow> (Inr u, w')))"

text \<open>
  \<^verbatim>\<open>db.Create(adminUser)\<close>. The hook that encrypts the password before the insert
  belongs to \<^verbatim>\<open>models.User\<close> and is left out: the row keeps the password it is given.
\<close>

definition create_user :: "User \<Rightarrow> world \<Rightarrow> error option \<times> world" where
  "create_user u w =
     (case db_call (OpCreate UserTable 1) w of
        (Some m, w') \<Rightarrow> (Some (StorageFault m), w')
      | (None, w') \<Rightarrow> (None, w'\<lparr>user_tbl := user_tbl w' @ [u]\<rparr>))"



section \<open>The seed service\<close>

text \<open>
  What the service takes from outside the store: the file system and the JSON decoder
  (\<open>Unmarshal\<close> gives the \<^verbatim>\<open>news_items\<close> of the document), \<^verbatim>\<open>time.Parse\<close> with the
  layout \<^verbatim>\<open>2006-01-02 15:04:05\<close>, the clock read while record \<open>i\<close> is processed, the
  process environment, and the validators of \<^verbatim>\<open>internal/utils\<close>, which are not part
  of the sources at hand.
\<close>

record env =
  ReadFile :: "string \<Rightarrow> error + string"
  Unmarshal :: "string \<Rightarrow> error + NewsJSONData list"
  ParseTime :: "string \<Rightarrow> time option"
  Now :: "nat \<Rightarrow> time"
  Getenv :: "string \<Rightarrow> string"
  IsValidEmail :: "string \<Rightarrow> bool"
  IsValidPassword :: "string \<Rightarrow> bool"
  IsValidUsername :: "string \<Rightarrow> bool"

text \<open>\<^verbatim>\<open>batchInsertNews\<close>\<close>

definition batchInsertNews :: "News list \<Rightarrow> world \<Rightarrow> error option \<times> world" where
  "batchInsertNews newsList w =
     (if length newsList = 0 then (None, w)
      else Transaction (\<lambda>tx. CreateInBatches newsList 50 tx) w)"

text \<open>The news row built from a JSON record and its publication time.\<close>

definition to_news :: "NewsJSONData \<Rightarrow> time \<Rightarrow> News" where
  "to_news newsData publishedAt =
     \<lparr>ID = 0,
      Title = title newsData,
      Content = content newsData,
      Summary = summary newsData,
      Description = description newsData,
      Source = source newsData,
      Category = category newsData,
      PublishedAt = publishedAt,
      CreatedBy = created_by newsData,
      IsActive = is_active newsData,
      SourceType = (if source_type newsData = ''rss'' then NewsTypeRSS else NewsTypeManual),
      RSSSourceID = rss_source_id newsData,
      Link = link newsData,
      GUID = guid newsData,
      Author = author newsData,
      ImageURL = image_url newsData,
      Tags = tags newsData,
      Language = language newsData,
      ViewCount = view_count newsData,
      LikeCount = like_count newsData,
      CommentCount = comment_count newsData,
      ShareCount = share_count newsData,
      HotnessScore = hotness_score newsData,
      Status = status newsData,
      IsProcessed = is_processed newsData\<rparr>"

text \<open>
  The time of record \<open>i\<close>: the parsed \<^verbatim>\<open>published_at\<close>, or the clock when it does not
  parse, in which case a warning with the position \<open>i + 1\<close> is logged.
\<close>

definition published_time :: "env \<Rightarrow> nat \<Rightarrow> NewsJSONData \<Rightarrow> time" where
  "published_time env i newsData =
     (case ParseTime env (published_at newsData) of Some t \<Rightarrow> t | None \<Rightarrow> Now env i)"

definition warn_time :: "env \<Rightarrow> nat \<Rightarrow> NewsJSONData \<Rightarrow> world \<Rightarrow> world" where
  "warn_time env i newsData w =
     (case ParseTime env (published_at newsData) of
        Some t \<Rightarrow> w
      | None \<Rightarrow> log_line (LogTimeWarning (i + 1)) w)"

text \<open>The local variables of the import loop.\<close>

record loop_vars =
  newsList :: "News list"
  importedCount :: nat
  skippedCount :: nat

text \<open>
  The loop of \<^verbatim>\<open>SeedNewsFromJSON\<close> over \<^verbatim>\<open>newsDataList\<close>, from index \<open>i\<close>. It
  returns the error of a failed batch insert, or \<open>None\<close> at the end of the list.
\<close>

fun import_loop ::
  "env \<Rightarrow> nat \<Rightarrow> NewsJSONData list \<Rightarrow> loop_vars \<Rightarrow> world \<Rightarrow> error option \<times> loop_vars \<times> world"
  where
  "import_loop env i [] v w = (None, v, w)"
| "import_loop env i (newsData # rest) v w =
     (let publishedAt = published_time env i newsData;
          w1 = warn_time env i newsData w
      in case first_news (guid newsData) (link newsData) w1 of
           (Inr existingNews, w2) \<Rightarrow>
             import_loop env (i + 1) rest (v\<lparr>skippedCount := skippedCount v + 1\<rparr>)
               (log_line (LogSkipDuplicate (title newsData)) w2)
         | (Inl err, w2) \<Rightarrow>
             if err \<noteq> ErrRecordNotFound
             then import_loop env (i + 1) rest v (log_line (LogLookupError err) w2)
             else
               (let v1 = v\<lparr>newsList := newsList v @ [to_news newsData publishedAt],
                           importedCount := importedCount v + 1\<rparr>
                in if length (newsList v1) \<ge> 100
                   then (case batchInsertNews (newsList v1) w2 of
                           (Some e, w3) \<Rightarrow> (Some (Wrap ''failed to batch insert news'' e), v1, w3)
                         | (None, w3) \<Rightarrow> import_loop env (i + 1) rest (v1\<lparr>newsList := []\<rparr>) w3)
                   else import_loop env (i + 1) rest v1 w2))"

text \<open>\<^verbatim>\<open>SeedNewsFromJSON\<close>\<close>

definition SeedNewsFromJSON :: "env \<Rightarrow> string \<Rightarrow> world \<Rightarrow> error option \<times> world" where
  "SeedNewsFromJSON env jsonFilePath w =
     (let w0 = log_line (LogImportStart jsonFilePath) w
      in if \<not> db_connected w0 then (Some (Msg ''database connection not initialized''), w0)
         else
           (case count_news w0 of
              (Inl err, w1) \<Rightarrow> (Some (Wrap ''failed to check existing news count'' err), w1)
            | (Inr count, w1) \<Rightarrow>
                if count > 0 then (None, log_line (LogNewsExist count) w1)
                else
                  (let w2 = w1\<lparr>files_read := files_read w1 @ [jsonFilePath]\<rparr>
                   in case ReadFile env jsonFilePath of
                        Inl err \<Rightarrow> (Some (Wrap ''failed to read JSON file'' err), w2)
                      | Inr jsonData \<Rightarrow>
                          (case Unmarshal env jsonData of
                             Inl err \<Rightarrow> (Some (Wrap ''failed to parse JSON data'' err), w2)
                           | Inr newsDataList \<Rightarrow>
                               (case import_loop env 0 newsDataList
                                       \<lparr>newsList = [], importedCount = 0, skippedCount = 0\<rparr>
                                       (log_line (LogParsed (length newsDataList)) w2) of
                                  (Some err, v, w3) \<Rightarrow> (Some err, w3)
                                | (None, v, w3) \<Rightarrow>
                                    (case (if length (newsList v) > 0
                                           then batchInsertNews (newsList v) w3
                                           else (None, w3)) of
                                       (Some err, w4) \<Rightarrow>
                                         (Some (Wrap ''failed to insert remaining news'' err), w4)
                                     | (None, w4) \<Rightarrow>
                                         (None, log_line (LogImportDone (importedCount v)
                                                            (skippedCount v)) w4)))))))"


text \<open>
  \<^verbatim>\<open>SeedInitialAdmin\<close>. The lines logged after the insert (user name, email address,
  password) are one log entry.
\<close>

definition adminEmail :: "env \<Rightarrow> string" where
  "adminEmail env =
     (if Getenv env ''ADMIN_EMAIL'' = [] then ''admin@easypeek.com''
      else Getenv env ''ADMIN_EMAIL'')"

definition adminPassword :: "env \<Rightarrow> string" where
  "adminPassword env =
     (if Getenv env ''ADMIN_PASSWORD'' = [] then ''admin123456''
      else Getenv env ''ADMIN_PASSWORD'')"

definition adminUsername :: "env \<Rightarrow> string" where
  "adminUsername env =
     (if Getenv env ''ADMIN_USERNAME'' = [] then ''admin''
      else Getenv env ''ADMIN_USERNAME'')"

definition adminUser :: "env \<Rightarrow> User" where
  "adminUser env =
     \<lparr>Username = adminUsername env, Email = adminEmail env, Password = adminPassword env,
      Role = ''admin'', Status = ''active''\<rparr>"

definition SeedInitialAdmin :: "env \<Rightarrow> world \<Rightarrow> error option \<times> world" where
  "SeedInitialAdmin env w =
     (if \<not> db_connected w then (Some (Msg ''database connection not initialized''), w)
      else
        (case count_admins w of
           (Inl err, w1) \<Rightarrow> (Some err, w1)
         | (Inr adminCount, w1) \<Rightarrow>
             if adminCount > 0 then (None, log_line LogAdminExists w1)
             else if \<not> IsValidEmail env (adminEmail env)
               then (Some (Msg ''invalid admin email format''), w1)
             else if \<not> IsValidPassword env (adminPassword env)
               then (Some (Msg ''admin password must contain at least one letter and one number''),
                     w1)
             else if \<not> IsValidUsername env (adminUsername env)
               then (Some (Msg ''invalid admin username format''), w1)
             else
               (case first_user (adminEmail env) (adminUsername env) w1 of
                  (Inr existingUser, w2) \<Rightarrow>
                    (Some (Msg ''admin email or username already exists''), w2)
                | (Inl err, w2) \<Rightarrow>
                    (case create_user (adminUser env) w2 of
                       (Some err, w3) \<Rightarrow> (Some err, w3)
                     | (None, w3) \<Rightarrow>
                         (None, log_line (LogAdminCreated (adminUsername env) (adminEmail env)
                                            (adminPassword env)) w3)))))"





section \<open>What a run leaves behind\<close>

text \<open>
  The statements and the log lines that a run from \<open>w\<close> to \<open>w'\<close> has added.
\<close>

definition new_trace :: "world \<Rightarrow> world \<Rightarrow> (db_op \<times> string option) list" where
  "new_trace w w' = drop (length (trace w)) (trace w')"

definition new_logs :: "world \<Rightarrow> world \<Rightarrow> log_entry list" where
  "new_logs w w' = drop (length (logs w)) (logs w')"

text \<open>
  The sizes of the groups into which \<open>n\<close> rows fall when they are cut every \<open>b\<close> rows,
  and the statements of a committed transaction that inserts \<open>n\<close> news rows in groups of
  50.
\<close>

definition chunk_sizes :: "nat \<Rightarrow> nat \<Rightarrow> nat list" where
  "chunk_sizes b n = replicate (n div b) b @ (if n mod b = 0 then [] else [n mod b])"

definition tx_ok :: "nat \<Rightarrow> (db_op \<times> string option) list" where
  "tx_ok n =
     (OpBegin, None) # map (\<lambda>k. (OpCreate NewsTable k, None)) (chunk_sizes 50 n)
       @ [(OpCommit, None)]"

text \<open>
  The rows that the import builds from the records \<open>cs\<close>, the first of which has index
  \<open>i\<close>, and the warnings it logs for the times that do not parse.
\<close>

fun built_news :: "env \<Rightarrow> nat \<Rightarrow> NewsJSONData list \<Rightarrow> News list" where
  "built_news env i [] = []"
| "built_news env i (c # cs) = to_news c (published_time env i c) # built_news env (i + 1) cs"

fun time_warnings :: "env \<Rightarrow> nat \<Rightarrow> NewsJSONData list \<Rightarrow> log_entry list" where
  "time_warnings env i [] = []"
| "time_warnings env i (c # cs) =
     (case ParseTime env (published_at c) of
        Some t \<Rightarrow> time_warnings env (i + 1) cs
      | None \<Rightarrow> LogTimeWarning (i + 1) # time_warnings env (i + 1) cs)"

text \<open>A stored row is a duplicate of a record: same GUID or same link.\<close>

definition duplicate_of :: "NewsJSONData \<Rightarrow> News \<Rightarrow> bool" where
  "duplicate_of c r = (GUID r = guid c \<or> Link r = link c)"

text \<open>
  The rows that the import builds from those of the records \<open>cs\<close>, the first of which has
  index \<open>i\<close>, that have neither the GUID nor the link of a row of \<open>tbl\<close>.
\<close>

fun kept_news :: "env \<Rightarrow> nat \<Rightarrow> News list \<Rightarrow> NewsJSONData list \<Rightarrow> News list" where
  "kept_news env i tbl [] = []"
| "kept_news env i tbl (c # cs) =
     (if \<exists>r\<in>set tbl. duplicate_of c r then kept_news env (i + 1) tbl cs
      else to_news c (published_time env i c) # kept_news env (i + 1) tbl cs)"

text \<open>The number of lookups that the log reports as failed.\<close>

definition is_lookup_error :: "log_entry \<Rightarrow> bool" where
  "is_lookup_error e = (case e of LogLookupError err \<Rightarrow> True | _ \<Rightarrow> False)"

definition lookup_errors :: "log_entry list \<Rightarrow> nat" where
  "lookup_errors ls = length (filter is_lookup_error ls)"

text \<open>
  The storage errors of the statements in a trace that failed, in order, and the
  statements that are not lookups (\<^verbatim>\<open>First\<close>).
\<close>

definition failed :: "(db_op \<times> string option) list \<Rightarrow> error list" where
  "failed t = concat (map (\<lambda>(op, f). case f of None \<Rightarrow> [] | Some m \<Rightarrow> [StorageFault m]) t)"

definition not_lookup :: "db_op \<times> string option \<Rightarrow> bool" where
  "not_lookup ev = (case fst ev of OpFirst tbl \<Rightarrow> False | _ \<Rightarrow> True)"

text \<open>
  The statements of an import of \<open>n\<close> records that are all accepted: the count, then a
  lookup for every record with a committed transaction of 100 rows after every hundredth
  lookup, and a last transaction for the rows that remain.
\<close>

definition import_trace :: "nat \<Rightarrow> (db_op \<times> string option) list" where
  "import_trace n =
     (OpCount NewsTable, None) #
     concat (replicate (n div 100) (replicate 100 (OpFirst NewsTable, None) @ tx_ok 100)) @
     replicate (n mod 100) (OpFirst NewsTable, None) @
     (if n mod 100 = 0 then [] else tx_ok (n mod 100))"

text \<open>The store runs the next statement it is sent.\<close>

definition next_runs :: "world \<Rightarrow> bool" where
  "next_runs w = (case faults w of [] \<Rightarrow> True | f # fs \<Rightarrow> f = None)"

text \<open>The accounts with the role admin.\<close>

definition admins :: "world \<Rightarrow> User list" where
  "admins w = filter (\<lambda>u. Role u = ''admin'') (user_tbl w)"

section \<open>Concrete inputs\<close>

text \<open>Stored rows, requests and environments on which the theorems below are run.\<close>

definition blank_news :: News where
  "blank_news =
     \<lparr>ID = 0, Title = [], Content = [], Summary = [], Description = [], Source = [],
      Category = [], PublishedAt = 0, CreatedBy = None, IsActive = True,
      SourceType = NewsTypeManual, RSSSourceID = None, Link = [], GUID = [], Author = [],
      ImageURL = [], Tags = [], Language = [], ViewCount = 0, LikeCount = 0, CommentCount = 0,
      ShareCount = 0, HotnessScore = 0, Status = [], IsProcessed = False\<rparr>"

text \<open>Twelve stored rows: row \<open>i\<close> has the score \<open>(i mod 4) / 2\<close>, so scores tie.\<close>

definition scored_news :: "nat \<Rightarrow> News" where
  "scored_news i = blank_news\<lparr>ID := i, HotnessScore := real (i mod 4) / 2\<rparr>"

definition twelve_news :: "News list" where
  "twelve_news = map scored_news [1..<13]"

text \<open>
  Listing services that answer with no rows and report, as the total, the page and the
  size they were asked for; the second one also checks the text it was given.
\<close>

definition echo_service :: "int \<Rightarrow> int \<Rightarrow> string + News list \<times> int" where
  "echo_service p n = Inr ([], 1000 * p + n)"

definition echo_search :: "string \<Rightarrow> int \<Rightarrow> int \<Rightarrow> string + News list \<times> int" where
  "echo_search s p n = (if s = ''go'' then Inr ([], 1000 * p + n) else Inl ''other'')"

text \<open>A connected, empty store that runs every statement.\<close>

definition empty_world :: world where
  "empty_world =
     \<lparr>db_connected = True, news_tbl = [], user_tbl = [], rss_tbl = [], news_seq = 0,
      faults = [], trace = [], logs = [], files_read = []\<rparr>"

text \<open>
  An environment in which every file decodes to the records \<open>items\<close>, a time parses
  unless it is empty, the variables are \<open>vars\<close>, an email address must contain \<open>@\<close>
  and passwords and user names must not be empty.
\<close>

definition test_env :: "NewsJSONData list \<Rightarrow> (string \<Rightarrow> string) \<Rightarrow> env" where
  "test_env items vars =
     \<lparr>ReadFile = (\<lambda>p. Inr p), Unmarshal = (\<lambda>d. Inr items),
      ParseTime = (\<lambda>s. if s = [] then None else Some 0), Now = (\<lambda>i. 1000 + i),
      Getenv = vars, IsValidEmail = (\<lambda>s. CHR ''@'' \<in> set s),
      IsValidPassword = (\<lambda>s. s \<noteq> []), IsValidUsername = (\<lambda>s. s \<noteq> [])\<rparr>"

definition blank_item :: NewsJSONData where
  "blank_item =
     \<lparr>title = [], content = [], summary = [], description = [], source = [], category = [],
      published_at = ''2025-01-01 00:00:00'', created_by = None, is_active = True,
      source_type = ''rss'', rss_source_id = None, link = [], guid = [], author = [],
      image_url = [], tags = [], language = [], view_count = 0, like_count = 0,
      comment_count = 0, share_count = 0, hotness_score = 0, status = [],
      is_processed = False\<rparr>"

definition item :: "string \<Rightarrow> string \<Rightarrow> NewsJSONData" where
  "item g l = blank_item\<lparr>guid := g, link := l\<rparr>"

text \<open>The two records of the specification's example.\<close>

definition g1_items :: "NewsJSONData list" where
  "g1_items = [item ''g1'' ''http://a'', item ''g1'' ''http://b'']"

text \<open>120 records with GUIDs and links that all differ.\<close>

definition numbered_item :: "nat \<Rightarrow> NewsJSONData" where
  "numbered_item k = item (replicate (Suc k) (CHR ''g'')) (replicate (Suc k) (CHR ''l''))"

definition items120 :: "NewsJSONData list" where
  "items120 = map numbered_item [0..<120]"

text \<open>
  101 such records, and 100 of them followed by three records: one with the GUID of the
  first of the hundred, one with the link of the second, and one that shares nothing with
  them.
\<close>

definition items101 :: "NewsJSONData list" where
  "items101 = map numbered_item [0..<101]"

definition items100 :: "NewsJSONData list" where
  "items100 = map numbered_item [0..<100]"

definition late_items :: "NewsJSONData list" where
  "late_items = [item ''g'' ''http://x'', item ''y'' ''ll'', item ''z'' ''http://z'']"

text \<open>A store that already holds the row of the record with GUID g1 and link http://a.\<close>

definition g1_world :: world where
  "g1_world =
     empty_world\<lparr>news_tbl := [(to_news (item ''g1'' ''http://a'') 0)\<lparr>ID := 1\<rparr>],
                 news_seq := 1\<rparr>"

text \<open>The initial values of the loop variables.\<close>

definition no_vars :: loop_vars where
  "no_vars = \<lparr>newsList = [], importedCount = 0, skippedCount = 0\<rparr>"

text \<open>
  An empty store that runs the first statement it is sent and fails the second with a
  timeout.
\<close>

definition timeout_world :: world where
  "timeout_world = empty_world\<lparr>faults := [None, Some ''timeout'']\<rparr>"

text \<open>An empty store that fails the first statement it is sent with a timeout.\<close>

definition failing_world :: world where
  "failing_world = empty_world\<lparr>faults := [Some ''timeout'']\<rparr>"

text \<open>
  120 rows to insert, and an empty store that runs two statements and fails the third
  because the disk is full.
\<close>

definition rows120 :: "News list" where
  "rows120 = replicate 120 blank_news"

definition disk_full_world :: world where
  "disk_full_world = empty_world\<lparr>faults := [None, None, Some ''disk full'']\<rparr>"

text \<open>The process environment in which only \<^verbatim>\<open>ADMIN_EMAIL\<close> is set, to a text without \<open>@\<close>.\<close>

definition bad_email_vars :: "string \<Rightarrow> string" where
  "bad_email_vars k = (if k = ''ADMIN_EMAIL'' then ''not-an-email'' else [])"

text \<open>A store whose only account is an admin.\<close>

definition admin_world :: world where
  "admin_world =
     empty_world\<lparr>user_tbl := [\<lparr>Username = ''root'', Email = ''root@example.org'',
                                Password = ''secret1'', Role = ''admin'',
                                Status = ''active''\<rparr>]\<rparr>"




section \<open>Properties of the news handlers\<close>

lemma Atoi_1: "Atoi ''1'' = Some 1"
  by (simp add: Atoi_def is_digit_def digits_val_def digit_val_def)

lemma Atoi_10: "Atoi ''10'' = Some 10"
  by (simp add: Atoi_def is_digit_def digits_val_def digit_val_def)

text \<open>A text that is not an optional sign followed by decimal digits is rejected.\<close>

lemma Atoi_non_numeric: "\<not> numeric s \<Longrightarrow> Atoi s = None"
  by (auto simp: numeric_def Atoi_def Let_def split: list.splits)

lemma Atoi_vals:
  "Atoi ''0'' = Some 0" "Atoi ''500'' = Some 500" "Atoi ''-1'' = Some (- 1)"
  "Atoi ''3'' = Some 3" "Atoi ''20'' = Some 20" "Atoi ''abc'' = None"
  by (simp_all add: Atoi_def is_digit_def digits_val_def digit_val_def)

text \<open>
  C8. Each of the four paginated handlers (all news, search, by category, unlinked news)
  asks its service for the page \<open>p\<close> and the size \<open>n\<close>, and reports \<open>p\<close> and \<open>n\<close> in
  its answer, where \<open>p\<close> is 1 when the \<^verbatim>\<open>page\<close> parameter is absent, is rejected by
  \<^verbatim>\<open>Atoi\<close> or is below 1, and the number sent otherwise; and \<open>n\<close> is 10 when the
  \<^verbatim>\<open>size\<close> parameter is absent, is rejected by \<^verbatim>\<open>Atoi\<close> or is outside 1..100, and
  the number sent otherwise. This holds whatever the service behind the handler does
  (the search and category handlers first reject an empty search text or category).
\<close>

theorem pagination_defaults:
  fixes q :: query
  assumes "page_invalid (q ''page'') \<and> p = 1 \<or>
           (\<exists>s. q ''page'' = Some s \<and> Atoi s = Some p \<and> 1 \<le> p)"
    and "size_invalid (q ''size'') \<and> n = 10 \<or>
         (\<exists>s. q ''size'' = Some s \<and> Atoi s = Some n \<and> 1 \<le> n \<and> n \<le> 100)"
  shows
    "GetAllNews svc1 toR q =
       (case svc1 p n of Inl err \<Rightarrow> InternalServerError err
        | Inr (rows, tot) \<Rightarrow> SuccessWithPagination (map toR rows) tot p n) \<and>
     (Query q ''query'' \<noteq> [] \<longrightarrow>
        SearchNews svc2 toR q =
          (case svc2 (Query q ''query'') p n of Inl err \<Rightarrow> InternalServerError err
           | Inr (rows, tot) \<Rightarrow> SuccessWithPagination (map toR rows) tot p n)) \<and>
     (cat \<noteq> [] \<longrightarrow>
        GetNewsByCategory svc2 toR cat q =
          (case svc2 cat p n of Inl err \<Rightarrow> InternalServerError err
           | Inr (rows, tot) \<Rightarrow> SuccessWithPagination (map toR rows) tot p n)) \<and>
     GetUnlinkedNews svc1 toR q =
       (case svc1 p n of Inl err \<Rightarrow> InternalServerError err
        | Inr (rows, tot) \<Rightarrow> SuccessWithPagination (map toR rows) tot p n)"
proof -
  have P: "(case Atoi (DefaultQuery q ''page'' ''1'') of None \<Rightarrow> 1
            | Some p' \<Rightarrow> if p' < 1 then 1 else p') = p"
    using assms(1)
    by (auto simp: page_invalid_def DefaultQuery_def Atoi_1 split: option.splits)
  have N: "(case Atoi (DefaultQuery q ''size'' ''10'') of None \<Rightarrow> 10
            | Some n' \<Rightarrow> if n' < 1 \<or> n' > 100 then 10 else n') = n"
    using assms(2)
    by (auto simp: size_invalid_def DefaultQuery_def Atoi_10 split: option.splits)
  have a: "GetAllNews svc1 toR q =
       (case svc1 p n of Inl err \<Rightarrow> InternalServerError err
        | Inr (rows, tot) \<Rightarrow> SuccessWithPagination (map toR rows) tot p n)"
    unfolding GetAllNews_def Let_def by (simp only: P N)
  have b: "Query q ''query'' \<noteq> [] \<Longrightarrow> SearchNews svc2 toR q =
          (case svc2 (Query q ''query'') p n of Inl err \<Rightarrow> InternalServerError err
           | Inr (rows, tot) \<Rightarrow> SuccessWithPagination (map toR rows) tot p n)"
    unfolding SearchNews_def Let_def by (simp only: P N if_False)
  have c: "cat \<noteq> [] \<Longrightarrow> GetNewsByCategory svc2 toR cat q =
          (case svc2 cat p n of Inl err \<Rightarrow> InternalServerError err
           | Inr (rows, tot) \<Rightarrow> SuccessWithPagination (map toR rows) tot p n)"
    unfolding GetNewsByCategory_def Let_def by (simp only: P N if_False)
  have d: "GetUnlinkedNews svc1 toR q =
       (case svc1 p n of Inl err \<Rightarrow> InternalServerError err
        | Inr (rows, tot) \<Rightarrow> SuccessWithPagination (map toR rows) tot p n)"
    unfolding GetUnlinkedNews_def Let_def by (simp only: P N)
  show ?thesis using a b c d by (intro conjI impI)
qed

text \<open>
  The requests of the specification, sent to services that answer with the page and the
  size they were asked for (as the total \<open>1000 * page + size\<close>): \<^verbatim>\<open>page=0\<close> asks for
  page 1, \<^verbatim>\<open>size=500\<close> and \<^verbatim>\<open>size=-1\<close> ask for size 10, and a valid page or size is passed
  on unchanged.
\<close>

theorem pagination_defaults_witness:
  "page_invalid ([''page'' \<mapsto> ''0''] ''page'') \<and>
   size_invalid ([''size'' \<mapsto> ''500''] ''size'') \<and>
   size_invalid ([''size'' \<mapsto> ''-1''] ''size'') \<and>
   page_invalid ([''query'' \<mapsto> ''go'', ''page'' \<mapsto> ''abc''] ''page'') \<and>
   GetAllNews echo_service ID [''page'' \<mapsto> ''0''] = SuccessWithPagination [] 1010 1 10 \<and>
   GetAllNews echo_service ID [''page'' \<mapsto> ''3'', ''size'' \<mapsto> ''500'']
     = SuccessWithPagination [] 3010 3 10 \<and>
   GetUnlinkedNews echo_service ID [''page'' \<mapsto> ''3'', ''size'' \<mapsto> ''-1'']
     = SuccessWithPagination [] 3010 3 10 \<and>
   GetAllNews echo_service ID [''page'' \<mapsto> ''0'', ''size'' \<mapsto> ''20'']
     = SuccessWithPagination [] 1020 1 20 \<and>
   SearchNews echo_search ID [''query'' \<mapsto> ''go'', ''page'' \<mapsto> ''abc'']
     = SuccessWithPagination [] 1010 1 10 \<and>
   GetNewsByCategory echo_search ID ''go'' [''size'' \<mapsto> ''500'']
     = SuccessWithPagination [] 1010 1 10"
proof -
  have hp: "page_invalid ([''page'' \<mapsto> ''0''] ''page'')"
    by (simp add: page_invalid_def Atoi_vals)
  have hs: "size_invalid ([''size'' \<mapsto> ''500''] ''size'')"
    by (simp add: size_invalid_def Atoi_vals)
  have hm: "size_invalid ([''size'' \<mapsto> ''-1''] ''size'')"
    by (simp add: size_invalid_def Atoi_vals)
  have ha: "page_invalid ([''query'' \<mapsto> ''go'', ''page'' \<mapsto> ''abc''] ''page'')"
    by (simp add: page_invalid_def Atoi_vals)
  have a: "GetAllNews echo_service ID [''page'' \<mapsto> ''0''] = SuccessWithPagination [] 1010 1 10"
    using pagination_defaults [where q = "[''page'' \<mapsto> ''0'']" and p = 1 and n = 10
        and ?svc1.0 = echo_service and toR = ID]
    by (simp add: page_invalid_def size_invalid_def Atoi_vals echo_service_def)
  have b: "GetAllNews echo_service ID [''page'' \<mapsto> ''3'', ''size'' \<mapsto> ''500'']
             = SuccessWithPagination [] 3010 3 10"
    using pagination_defaults [where q = "[''page'' \<mapsto> ''3'', ''size'' \<mapsto> ''500'']" and p = 3
        and n = 10 and ?svc1.0 = echo_service and toR = ID]
    by (simp add: page_invalid_def size_invalid_def Atoi_vals echo_service_def)
  have c: "GetUnlinkedNews echo_service ID [''page'' \<mapsto> ''3'', ''size'' \<mapsto> ''-1'']
             = SuccessWithPagination [] 3010 3 10"
    using pagination_defaults [where q = "[''page'' \<mapsto> ''3'', ''size'' \<mapsto> ''-1'']" and p = 3
        and n = 10 and ?svc1.0 = echo_service and toR = ID]
    by (simp add: page_invalid_def size_invalid_def Atoi_vals echo_service_def)
  have d: "GetAllNews echo_service ID [''page'' \<mapsto> ''0'', ''size'' \<mapsto> ''20'']
             = SuccessWithPagination [] 1020 1 20"
    using pagination_defaults [where q = "[''page'' \<mapsto> ''0'', ''size'' \<mapsto> ''20'']" and p = 1
        and n = 20 and ?svc1.0 = echo_service and toR = ID]
    by (simp add: page_invalid_def size_invalid_def Atoi_vals echo_service_def)
  have e: "SearchNews echo_search ID [''query'' \<mapsto> ''go'', ''page'' \<mapsto> ''abc'']
             = SuccessWithPagination [] 1010 1 10"
    using pagination_defaults [where q = "[''query'' \<mapsto> ''go'', ''page'' \<mapsto> ''abc'']" and p = 1
        and n = 10 and ?svc2.0 = echo_search and toR = ID]
    by (simp add: page_invalid_def size_invalid_def Atoi_vals echo_search_def Query_def)
  have f: "GetNewsByCategory echo_search ID ''go'' [''size'' \<mapsto> ''500'']
             = SuccessWithPagination [] 1010 1 10"
    using pagination_defaults [where q = "[''size'' \<mapsto> ''500'']" and p = 1
        and n = 10 and ?svc2.0 = echo_search and toR = ID and cat = "''go''"]
    by (simp add: page_invalid_def size_invalid_def Atoi_vals echo_search_def)
  show ?thesis using hp hs hm ha a b c d e f by (intro conjI)
qed


lemma limit_default:
  assumes "limit_invalid (q ''limit'')"
  shows "(case Atoi (DefaultQuery q ''limit'' ''10'') of None \<Rightarrow> 10
          | Some n \<Rightarrow> if n \<le> 0 \<or> n > 100 then 10 else n) = (10::int)"
  using assms by (auto simp: limit_invalid_def DefaultQuery_def Atoi_10 split: option.splits)

lemma sorted_hot: "sorted_wrt hot_before (sort_key hot_key tbl)"
proof -
  have "sorted (map hot_key (sort_key hot_key tbl))"
    by (rule sorted_sort_key)
  then have "sorted_wrt (\<lambda>a b. hot_key a \<le> hot_key b) (sort_key hot_key tbl)"
    by (simp add: sorted_map)
  moreover have "\<And>a b. hot_key a \<le> hot_key b \<Longrightarrow> hot_before a b"
    by (auto simp: hot_key_def hot_before_def less_eq_prod_def)
  ultimately show ?thesis
    by (rule sorted_wrt_mono_rel [rotated]) simp
qed

lemma sorted_wrt_take_hot: "sorted_wrt hot_before xs \<Longrightarrow> sorted_wrt hot_before (take n xs)"
  by (metis append_take_drop_id sorted_wrt_append)

text \<open>
  C9. When \<^verbatim>\<open>limit\<close> is absent, is rejected by \<^verbatim>\<open>Atoi\<close>, is at most 0 or is above
  100, the handler asks the service for 10 records. With the service as the specification
  describes it, the response then holds at most 10 stored rows, by descending hotness
  score, rows of equal score by ascending identifier.
\<close>

theorem hot_news_limit:
  assumes "limit_invalid (q ''limit'')"
  shows "GetHotNews svc toR q =
           (case svc 10 of Inl err \<Rightarrow> InternalServerError err
            | Inr l \<Rightarrow> Success (map toR l)) \<and>
         GetHotNews (GetHotNews_service tbl) toR q =
           Success (map toR (take 10 (sort_key hot_key tbl))) \<and>
         length (take 10 (sort_key hot_key tbl)) \<le> 10 \<and>
         set (take 10 (sort_key hot_key tbl)) \<subseteq> set tbl \<and>
         sorted_wrt hot_before (take 10 (sort_key hot_key tbl))"
proof (intro conjI)
  show a: "GetHotNews svc toR q =
             (case svc 10 of Inl err \<Rightarrow> InternalServerError err
              | Inr l \<Rightarrow> Success (map toR l))" for svc
    unfolding GetHotNews_def Let_def by (simp only: limit_default [of q, OF assms])
  show "GetHotNews (GetHotNews_service tbl) toR q =
          Success (map toR (take 10 (sort_key hot_key tbl)))"
    by (simp add: a GetHotNews_service_def)
  show "length (take 10 (sort_key hot_key tbl)) \<le> 10"
    by simp
  show "set (take 10 (sort_key hot_key tbl)) \<subseteq> set tbl"
    using set_take_subset [of 10 "sort_key hot_key tbl"] by simp
  show "sorted_wrt hot_before (take 10 (sort_key hot_key tbl))"
    by (rule sorted_wrt_take_hot [OF sorted_hot])
qed

text \<open>
  \<^verbatim>\<open>limit=1000\<close> over twelve stored rows: ten identifiers come back, the highest
  scores first and equal scores in the order of the identifiers.
\<close>

theorem hot_news_limit_witness:
  "limit_invalid ([''limit'' \<mapsto> ''1000''] ''limit'') \<and>
   GetHotNews (GetHotNews_service twelve_news) ID [''limit'' \<mapsto> ''1000'']
     = Success [3, 7, 11, 2, 6, 10, 1, 5, 9, 4]"
proof -
  have h: "limit_invalid ([''limit'' \<mapsto> ''1000''] ''limit'')"
    by (simp add: limit_invalid_def Atoi_def is_digit_def digits_val_def digit_val_def)
  have e: "map ID (take 10 (sort_key hot_key twelve_news)) = [3, 7, 11, 2, 6, 10, 1, 5, 9, 4]"
    by code_simp
  have r: "GetHotNews (GetHotNews_service twelve_news) ID [''limit'' \<mapsto> ''1000'']
             = Success (map ID (take 10 (sort_key hot_key twelve_news)))"
    using hot_news_limit [where q = "[''limit'' \<mapsto> ''1000'']" and toR = ID
        and tbl = twelve_news, OF h] by (rule conjunct2 [THEN conjunct1])
  show ?thesis unfolding r e using h by simp
qed

section \<open>Properties of the store\<close>

lemma db_call_nofault:
  "faults w = [] \<Longrightarrow> db_call op w = (None, w\<lparr>trace := trace w @ [(op, None)]\<rparr>)"
  by (simp add: db_call_def)

lemma db_call_frame:
  assumes "db_call op w = (f, w')"
  shows "news_tbl w' = news_tbl w" "user_tbl w' = user_tbl w" "rss_tbl w' = rss_tbl w"
    "news_seq w' = news_seq w" "logs w' = logs w" "files_read w' = files_read w"
    "db_connected w' = db_connected w" "trace w' = trace w @ [(op, f)]"
    "faults w' = tl (faults w)"
  using assms by (auto simp: db_call_def split: list.splits)

lemma chunk_sizes_0: "chunk_sizes b 0 = []"
  by (simp add: chunk_sizes_def)

lemma chunk_sizes_step:
  assumes "0 < b" "0 < n"
  shows "chunk_sizes b n = min b n # chunk_sizes b (n - b)"
proof (cases "n < b")
  case True
  with assms show ?thesis by (simp add: chunk_sizes_def)
next
  case False
  then have "n div b = Suc ((n - b) div b)" "n mod b = (n - b) mod b"
    using assms by (simp_all add: le_div_geq le_mod_geq)
  with False show ?thesis by (simp add: chunk_sizes_def)
qed

lemma assign_ids_append:
  "assign_ids k (xs @ ys) = assign_ids k xs @ assign_ids (k + length xs) ys"
  by (induction xs arbitrary: k) auto

lemma length_assign_ids: "length (assign_ids k xs) = length xs"
  by (induction xs arbitrary: k) auto

lemma create_news_frame:
  assumes "create_news rows w = (r, w')"
  shows "user_tbl w' = user_tbl w" "rss_tbl w' = rss_tbl w"
    "logs w' = logs w" "files_read w' = files_read w"
    "db_connected w' = db_connected w"
    "faults w' = tl (faults w)"
  using assms by (auto simp: create_news_def db_call_def split: list.splits option.splits)

lemma create_news_cases:
  assumes "create_news rows w = (r, w')"
  shows "(r = None \<and> news_tbl w' = news_tbl w @ assign_ids (news_seq w) rows \<and>
          news_seq w' = news_seq w + length rows \<and>
          trace w' = trace w @ [(OpCreate NewsTable (length rows), None)]) \<or>
         (\<exists>m. r = Some (StorageFault m) \<and> news_tbl w' = news_tbl w \<and> news_seq w' = news_seq w \<and>
          trace w' = trace w @ [(OpCreate NewsTable (length rows), Some m)])"
  using assms by (auto simp: create_news_def db_call_def split: list.splits option.splits)

lemma create_news_nofault:
  "faults w = [] \<Longrightarrow> create_news rows w =
     (None, w\<lparr>news_tbl := news_tbl w @ assign_ids (news_seq w) rows,
              news_seq := news_seq w + length rows,
              trace := trace w @ [(OpCreate NewsTable (length rows), None)]\<rparr>)"
  by (simp add: create_news_def db_call_nofault)

declare CreateInBatches.simps [simp del]

lemma CreateInBatches_Nil: "CreateInBatches [] b w = (None, w)"
  by (subst CreateInBatches.simps) simp

lemma CreateInBatches_stop: "rows = [] \<or> b = 0 \<Longrightarrow> CreateInBatches rows b w = (None, w)"
  by (subst CreateInBatches.simps) simp

lemma CreateInBatches_step:
  "rows \<noteq> [] \<Longrightarrow> 0 < b \<Longrightarrow> CreateInBatches rows b w =
     (case create_news (take b rows) w of
        (Some e, w') \<Rightarrow> (Some e, w')
      | (None, w') \<Rightarrow> CreateInBatches (drop b rows) b w')"
  by (subst CreateInBatches.simps) simp

lemma CreateInBatches_nofault:
  "faults w = [] \<Longrightarrow> 0 < b \<Longrightarrow> CreateInBatches rows b w =
     (None, w\<lparr>news_tbl := news_tbl w @ assign_ids (news_seq w) rows,
              news_seq := news_seq w + length rows,
              trace := trace w @ map (\<lambda>k. (OpCreate NewsTable k, None))
                                     (chunk_sizes b (length rows))\<rparr>)"
proof (induction rows b w rule: CreateInBatches.induct)
  case (1 rows b w)
  show ?case
  proof (cases "rows = []")
    case True
    then show ?thesis by (simp add: CreateInBatches_Nil chunk_sizes_0)
  next
    case False
    let ?w' = "w\<lparr>news_tbl := news_tbl w @ assign_ids (news_seq w) (take b rows),
              news_seq := news_seq w + length (take b rows),
              trace := trace w @ [(OpCreate NewsTable (length (take b rows)), None)]\<rparr>"
    have c: "create_news (take b rows) w = (None, ?w')"
      using "1.prems" by (simp add: create_news_nofault)
    have ih: "CreateInBatches (drop b rows) b ?w' =
       (None, ?w'\<lparr>news_tbl := news_tbl ?w' @ assign_ids (news_seq ?w') (drop b rows),
              news_seq := news_seq ?w' + length (drop b rows),
              trace := trace ?w' @ map (\<lambda>k. (OpCreate NewsTable k, None))
                                     (chunk_sizes b (length (drop b rows)))\<rparr>)"
      using "1.IH" [of None ?w'] c False "1.prems" by simp
    have ids: "assign_ids (news_seq w) (take b rows) @
               assign_ids (news_seq w + length (take b rows)) (drop b rows)
               = assign_ids (news_seq w) rows"
      using assign_ids_append [of "news_seq w" "take b rows" "drop b rows"] by simp
    have cs: "chunk_sizes b (length rows) = min b (length rows) # chunk_sizes b (length rows - b)"
      using False "1.prems" by (simp add: chunk_sizes_step)
    show ?thesis
      using False "1.prems" c ih ids cs
      by (simp add: CreateInBatches_step min.commute)
  qed
qed


lemma failed_Nil [simp]: "failed [] = []"
  by (simp add: failed_def)

lemma failed_append [simp]: "failed (xs @ ys) = failed xs @ failed ys"
  by (simp add: failed_def)

lemma failed_Cons_None [simp]: "failed ((op, None) # t) = failed t"
  by (simp add: failed_def)

lemma failed_Cons_Some [simp]: "failed ((op, Some m) # t) = StorageFault m # failed t"
  by (simp add: failed_def)

lemma failed_map_None [simp]: "failed (map (\<lambda>k. (g k, None)) ks) = []"
  by (induction ks) simp_all

lemma failed_mem: "(op, Some m) \<in> set t \<Longrightarrow> StorageFault m \<in> set (failed t)"
  by (induction t) (auto simp: failed_def)

lemma new_trace_eq: "trace w' = trace w @ t \<Longrightarrow> new_trace w w' = t"
  by (simp add: new_trace_def)

lemma new_logs_eq: "logs w' = logs w @ t \<Longrightarrow> new_logs w w' = t"
  by (simp add: new_logs_def)

lemma CreateInBatches_frame:
  assumes "CreateInBatches rows b w = (r, w')"
  shows "user_tbl w' = user_tbl w \<and> rss_tbl w' = rss_tbl w \<and> logs w' = logs w \<and>
         files_read w' = files_read w \<and> db_connected w' = db_connected w"
  using assms
proof (induction rows b w rule: CreateInBatches.induct)
  case (1 rows b w)
  show ?case
  proof (cases "rows = [] \<or> b = 0")
    case True
    with "1.prems" show ?thesis by (simp add: CreateInBatches_stop)
  next
    case False
    obtain r1 w1 where c: "create_news (take b rows) w = (r1, w1)" by force
    note f = create_news_frame [OF c]
    show ?thesis
    proof (cases r1)
      case None
      with "1.prems" False c have "CreateInBatches (drop b rows) b w1 = (r, w')"
        by (simp add: CreateInBatches_step)
      from "1.IH" [OF False c [symmetric] None this] f show ?thesis by simp
    next
      case (Some e)
      with "1.prems" False c have "w' = w1"
        by (simp add: CreateInBatches_step)
      with f show ?thesis by simp
    qed
  qed
qed

lemma CreateInBatches_spec:
  assumes "CreateInBatches rows b w = (r, w')"
  shows "\<exists>t. trace w' = trace w @ t \<and> failed t = (case r of None \<Rightarrow> [] | Some e \<Rightarrow> [e]) \<and>
             list_all not_lookup t \<and>
             (r = None \<longrightarrow> 0 < b \<longrightarrow>
                news_tbl w' = news_tbl w @ assign_ids (news_seq w) rows \<and>
                t = map (\<lambda>k. (OpCreate NewsTable k, None)) (chunk_sizes b (length rows)))"
  using assms
proof (induction rows b w arbitrary: r w' rule: CreateInBatches.induct)
  case (1 rows b w)
  show ?case
  proof (cases "rows = [] \<or> b = 0")
    case True
    with "1.prems" have "r = None" "w' = w" by (simp_all add: CreateInBatches_stop)
    with True show ?thesis by (intro exI [of _ "[]"]) (auto simp: chunk_sizes_0)
  next
    case False
    obtain r1 w1 where c: "create_news (take b rows) w = (r1, w1)" by force
    from create_news_cases [OF c] show ?thesis
    proof (elim disjE conjE exE)
      fix m
      assume a: "r1 = Some (StorageFault m)"
        "trace w1 = trace w @ [(OpCreate NewsTable (length (take b rows)), Some m)]"
      with "1.prems" False c have "r = Some (StorageFault m)" "w' = w1"
        by (simp_all add: CreateInBatches_step)
      with a show ?thesis
        by (intro exI [of _ "[(OpCreate NewsTable (length (take b rows)), Some m)]"])
           (simp add: not_lookup_def)
    next
      assume a: "r1 = None"
        "news_tbl w1 = news_tbl w @ assign_ids (news_seq w) (take b rows)"
        "news_seq w1 = news_seq w + length (take b rows)"
        "trace w1 = trace w @ [(OpCreate NewsTable (length (take b rows)), None)]"
      with "1.prems" False c have n: "CreateInBatches (drop b rows) b w1 = (r, w')"
        by (simp add: CreateInBatches_step)
      from "1.IH" [OF False c [symmetric] a(1) n]
      obtain t where t: "trace w' = trace w1 @ t"
        "failed t = (case r of None \<Rightarrow> [] | Some e \<Rightarrow> [e])"
        "list_all not_lookup t"
        "r = None \<longrightarrow> 0 < b \<longrightarrow>
           news_tbl w' = news_tbl w1 @ assign_ids (news_seq w1) (drop b rows) \<and>
           t = map (\<lambda>k. (OpCreate NewsTable k, None)) (chunk_sizes b (length (drop b rows)))"
        by blast
      have ids: "assign_ids (news_seq w) (take b rows) @
                 assign_ids (news_seq w + length (take b rows)) (drop b rows)
                 = assign_ids (news_seq w) rows"
        using assign_ids_append [of "news_seq w" "take b rows" "drop b rows"] by simp
      have cs: "chunk_sizes b (length rows) =
                  min b (length rows) # chunk_sizes b (length rows - b)"
        using False by (simp add: chunk_sizes_step)
      let ?t = "(OpCreate NewsTable (length (take b rows)), None) # t"
      have t1: "trace w' = trace w @ ?t" using t(1) a(4) by simp
      have t2: "failed ?t = (case r of None \<Rightarrow> [] | Some e \<Rightarrow> [e])" using t(2) by simp
      have t3: "r = None \<longrightarrow> 0 < b \<longrightarrow>
                news_tbl w' = news_tbl w @ assign_ids (news_seq w) rows \<and>
                ?t = map (\<lambda>k. (OpCreate NewsTable k, None)) (chunk_sizes b (length rows))"
        using t(4) a(2,3) ids cs by (simp add: min.commute)
      have t4: "list_all not_lookup ?t" using t(3) by (simp add: not_lookup_def)
      show ?thesis by (rule exI [of _ ?t]) (intro conjI t1 t2 t4 t3)
    qed
  qed
qed


lemma rollback_fields:
  "news_tbl (rollback w0 w) = news_tbl w0" "user_tbl (rollback w0 w) = user_tbl w0"
  "rss_tbl (rollback w0 w) = rss_tbl w0" "logs (rollback w0 w) = logs w"
  "files_read (rollback w0 w) = files_read w" "db_connected (rollback w0 w) = db_connected w"
  "trace (rollback w0 w) = trace w @ [(OpRollback, None)]"
  "faults (rollback w0 w) = faults w" "news_seq (rollback w0 w) = news_seq w"
  by (simp_all add: rollback_def)

lemma batchInsertNews_Nil: "batchInsertNews [] w = (None, w)"
  by (simp add: batchInsertNews_def)

lemma batchInsertNews_spec:
  assumes "batchInsertNews rows w = (r, w')"
  shows "\<exists>t. trace w' = trace w @ t \<and> failed t = (case r of None \<Rightarrow> [] | Some e \<Rightarrow> [e]) \<and>
             list_all not_lookup t \<and>
             (r = None \<longrightarrow> news_tbl w' = news_tbl w @ assign_ids (news_seq w) rows \<and>
                (rows \<noteq> [] \<longrightarrow> t = tx_ok (length rows))) \<and>
             (r \<noteq> None \<longrightarrow> news_tbl w' = news_tbl w) \<and>
             user_tbl w' = user_tbl w \<and> rss_tbl w' = rss_tbl w \<and> logs w' = logs w \<and>
             files_read w' = files_read w \<and> db_connected w' = db_connected w"
proof (cases "rows = []")
  case True
  with assms have "r = None" "w' = w" by (simp_all add: batchInsertNews_def)
  with True show ?thesis by (intro exI [of _ "[]"]) simp
next
  case False
  obtain f1 w1 where b: "db_call OpBegin w = (f1, w1)" by force
  note fb = db_call_frame [OF b]
  from assms False b have tr: "(r, w') =
     (case f1 of Some m \<Rightarrow> (Some (StorageFault m), w1)
      | None \<Rightarrow>
          (case CreateInBatches rows 50 w1 of
             (Some e, w2) \<Rightarrow> (Some e, rollback w1 w2)
           | (None, w2) \<Rightarrow>
               (case db_call OpCommit w2 of
                  (Some m, w3) \<Rightarrow> (Some (StorageFault m), rollback w1 w3)
                | (None, w3) \<Rightarrow> (None, w3))))"
    by (simp add: batchInsertNews_def Transaction_def)
  show ?thesis
  proof (cases f1)
    case (Some m)
    with tr have "r = Some (StorageFault m)" "w' = w1" by simp_all
    with fb Some show ?thesis
      by (intro exI [of _ "[(OpBegin, Some m)]"]) (simp add: not_lookup_def)
  next
    case None
    obtain r2 w2 where c: "CreateInBatches rows 50 w1 = (r2, w2)" by force
    note fc = CreateInBatches_frame [OF c]
    from CreateInBatches_spec [OF c] obtain t2 where t2: "trace w2 = trace w1 @ t2"
      "failed t2 = (case r2 of None \<Rightarrow> [] | Some e \<Rightarrow> [e])"
      "list_all not_lookup t2"
      "r2 = None \<longrightarrow> news_tbl w2 = news_tbl w1 @ assign_ids (news_seq w1) rows \<and>
          t2 = map (\<lambda>k. (OpCreate NewsTable k, None)) (chunk_sizes 50 (length rows))"
      by auto
    show ?thesis
    proof (cases r2)
      case (Some e)
      with tr None c have "r = Some e" "w' = rollback w1 w2" by simp_all
      with fb fc t2 Some None show ?thesis
        by (intro exI [of _ "(OpBegin, None) # t2 @ [(OpRollback, None)]"])
           (simp add: rollback_fields not_lookup_def)
    next
      case r2None: None
      obtain f3 w3 where k: "db_call OpCommit w2 = (f3, w3)" by force
      note fk = db_call_frame [OF k]
      show ?thesis
      proof (cases f3)
        case (Some m)
        with tr None c r2None k have "r = Some (StorageFault m)" "w' = rollback w1 w3"
          by simp_all
        with fb fc fk t2 Some None r2None show ?thesis
          by (intro exI [of _ "(OpBegin, None) # t2 @ [(OpCommit, Some m), (OpRollback, None)]"])
             (simp add: rollback_fields not_lookup_def)
      next
        case f3None: None
        with tr None c r2None k have "r = None" "w' = w3" by simp_all
        with fb fc fk t2 f3None None r2None False show ?thesis
          by (intro exI [of _ "(OpBegin, None) # t2 @ [(OpCommit, None)]"])
             (simp add: tx_ok_def not_lookup_def)
      qed
    qed
  qed
qed

lemma batchInsertNews_nofault:
  assumes "faults w = []" "rows \<noteq> []"
  shows "batchInsertNews rows w =
     (None, w\<lparr>news_tbl := news_tbl w @ assign_ids (news_seq w) rows,
              news_seq := news_seq w + length rows,
              trace := trace w @ tx_ok (length rows)\<rparr>)"
  using assms
  by (simp add: batchInsertNews_def Transaction_def db_call_nofault CreateInBatches_nofault
      tx_ok_def)

lemma CreateInBatches_seq:
  assumes "CreateInBatches rows b w = (None, w')" "0 < b"
  shows "news_seq w' = news_seq w + length rows"
  using assms
proof (induction rows b w rule: CreateInBatches.induct)
  case (1 rows b w)
  show ?case
  proof (cases "rows = []")
    case True
    with "1.prems" show ?thesis by (simp add: CreateInBatches_Nil)
  next
    case False
    then have ne: "\<not> (rows = [] \<or> b = 0)" using "1.prems"(2) by simp
    obtain r1 w1 where c: "create_news (take b rows) w = (r1, w1)" by force
    from "1.prems"(1) False "1.prems"(2) c have r1: "r1 = None"
      by (cases r1) (simp_all add: CreateInBatches_step)
    with "1.prems" False c have n: "CreateInBatches (drop b rows) b w1 = (None, w')"
      by (simp add: CreateInBatches_step)
    from create_news_cases [OF c] r1 have s: "news_seq w1 = news_seq w + length (take b rows)"
      by auto
    from "1.IH" [OF ne c [symmetric] r1 n "1.prems"(2)] s show ?thesis by simp
  qed
qed

lemma batchInsertNews_seq:
  assumes "batchInsertNews rows w = (None, w')"
  shows "news_seq w' = news_seq w + length rows"
proof (cases "rows = []")
  case True
  with assms show ?thesis by (simp add: batchInsertNews_def)
next
  case False
  obtain f1 w1 where b: "db_call OpBegin w = (f1, w1)" by force
  note fb = db_call_frame [OF b]
  from assms False b have tr: "(None, w') =
     (case f1 of Some m \<Rightarrow> (Some (StorageFault m), w1)
      | None \<Rightarrow>
          (case CreateInBatches rows 50 w1 of
             (Some e, w2) \<Rightarrow> (Some e, rollback w1 w2)
           | (None, w2) \<Rightarrow>
               (case db_call OpCommit w2 of
                  (Some m, w3) \<Rightarrow> (Some (StorageFault m), rollback w1 w3)
                | (None, w3) \<Rightarrow> (None, w3))))"
    by (simp add: batchInsertNews_def Transaction_def)
  then have f1: "f1 = None" by (cases f1) simp_all
  obtain r2 w2 where c: "CreateInBatches rows 50 w1 = (r2, w2)" by force
  from tr f1 c have r2: "r2 = None" by (cases r2) simp_all
  obtain f3 w3 where k: "db_call OpCommit w2 = (f3, w3)" by force
  from tr f1 c r2 k have f3: "f3 = None" by (cases f3) simp_all
  from tr f1 c r2 k f3 have w': "w' = w3" by simp
  from CreateInBatches_seq [OF c [unfolded r2]] db_call_frame(4) [OF k] fb(4) w'
  show ?thesis by simp
qed
section \<open>The batch writer\<close>

text \<open>
  C5. \<^verbatim>\<open>batchInsertNews\<close> with no rows returns no error and leaves the store alone.
  With rows, a call that returns no error has appended all of them to the news table in
  one transaction: a begin, one insert statement for every 50 rows and one for the rows
  left over, and a commit. A call that returns an error leaves the news table as it was,
  and whenever a statement of the call fails, the call returns the error of that
  statement. The other tables are never touched, and in a store that runs every statement
  the call succeeds.
\<close>

theorem batch_writer_atomic:
  "batchInsertNews [] w = (None, w) \<and>
   (rows \<noteq> [] \<and> batchInsertNews rows w = (r, w') \<longrightarrow>
      (r = None \<longrightarrow>
         news_tbl w' = news_tbl w @ assign_ids (news_seq w) rows \<and>
         new_trace w w' =
           (OpBegin, None) #
           map (\<lambda>k. (OpCreate NewsTable k, None))
             (replicate (length rows div 50) 50 @
              (if length rows mod 50 = 0 then [] else [length rows mod 50])) @
           [(OpCommit, None)]) \<and>
      (r \<noteq> None \<longrightarrow> news_tbl w' = news_tbl w) \<and>
      (\<forall>op m. (op, Some m) \<in> set (new_trace w w') \<longrightarrow> r = Some (StorageFault m)) \<and>
      user_tbl w' = user_tbl w \<and> rss_tbl w' = rss_tbl w) \<and>
   (rows \<noteq> [] \<and> faults w = [] \<longrightarrow> fst (batchInsertNews rows w) = None)"
proof (intro conjI impI allI)
  show "batchInsertNews [] w = (None, w)" by (rule batchInsertNews_Nil)
next
  assume "rows \<noteq> [] \<and> faults w = []"
  then show "fst (batchInsertNews rows w) = None"
    by (simp add: batchInsertNews_nofault)
next
  assume a: "rows \<noteq> [] \<and> batchInsertNews rows w = (r, w')"
  then have ne: "rows \<noteq> []" and b: "batchInsertNews rows w = (r, w')" by simp_all
  from batchInsertNews_spec [OF b] obtain t where
    t: "trace w' = trace w @ t" "failed t = (case r of None \<Rightarrow> [] | Some e \<Rightarrow> [e])"
    "r = None \<longrightarrow> news_tbl w' = news_tbl w @ assign_ids (news_seq w) rows \<and>
       (rows \<noteq> [] \<longrightarrow> t = tx_ok (length rows))"
    "r \<noteq> None \<longrightarrow> news_tbl w' = news_tbl w"
    "user_tbl w' = user_tbl w" "rss_tbl w' = rss_tbl w" by blast
  note nt = new_trace_eq [OF t(1)]
  show "user_tbl w' = user_tbl w" by (rule t(5))
  show "rss_tbl w' = rss_tbl w" by (rule t(6))
  { assume "r \<noteq> None"
    with t(4) show "news_tbl w' = news_tbl w" by simp }
  { assume n: "r = None"
    with t(3) show "news_tbl w' = news_tbl w @ assign_ids (news_seq w) rows" by simp
    from n t(3) ne show "new_trace w w' =
           (OpBegin, None) #
           map (\<lambda>k. (OpCreate NewsTable k, None))
             (replicate (length rows div 50) 50 @
              (if length rows mod 50 = 0 then [] else [length rows mod 50])) @
           [(OpCommit, None)]"
      unfolding nt by (simp add: tx_ok_def chunk_sizes_def) }
  { fix op m
    assume "(op, Some m) \<in> set (new_trace w w')"
    then have "StorageFault m \<in> set (failed t)" unfolding nt by (rule failed_mem)
    with t(2) show "r = Some (StorageFault m)" by (cases r) simp_all }
qed

text \<open>
  120 rows: stored by a begin, inserts of 50, 50 and 20 rows and a commit. When the second
  insert fails, the call returns its error and no row is stored.
\<close>

theorem batch_writer_atomic_witness:
  "rows120 \<noteq> [] \<and> faults empty_world = [] \<and>
   fst (batchInsertNews rows120 empty_world) = None \<and>
   length (news_tbl (snd (batchInsertNews rows120 empty_world))) = 120 \<and>
   new_trace empty_world (snd (batchInsertNews rows120 empty_world)) =
     [(OpBegin, None), (OpCreate NewsTable 50, None), (OpCreate NewsTable 50, None),
      (OpCreate NewsTable 20, None), (OpCommit, None)] \<and>
   batchInsertNews rows120 disk_full_world =
     (Some (StorageFault ''disk full''),
      empty_world\<lparr>news_seq := 50,
                   trace := [(OpBegin, None), (OpCreate NewsTable 50, None),
                             (OpCreate NewsTable 50, Some ''disk full''),
                             (OpRollback, None)]\<rparr>) \<and>
   news_tbl (snd (batchInsertNews rows120 disk_full_world)) = news_tbl disk_full_world"
proof -
  let ?ok = "batchInsertNews rows120 empty_world"
  have ne: "rows120 \<noteq> []" by (simp add: rows120_def)
  have nf: "faults empty_world = []" by (simp add: empty_world_def)
  have n: "length rows120 = 120" by (simp add: rows120_def)
  have ok: "fst ?ok = None"
    using batch_writer_atomic [THEN conjunct2, THEN conjunct2, rule_format, of rows120
        empty_world] ne nf by simp
  then have eq: "?ok = (None, snd ?ok)" by (metis prod.collapse)
  note c = batch_writer_atomic [THEN conjunct2, THEN conjunct1, rule_format,
      OF conjI [OF ne eq]]
  have sizes: "replicate (120 div 50) 50 @ (if 120 mod 50 = (0::nat) then [] else [120 mod 50])
                 = [50, 50, 20::nat]"
    by code_simp
  have len: "length (news_tbl (snd ?ok)) = 120"
    using c [THEN conjunct1] by (simp add: length_assign_ids n empty_world_def)
  have tr: "new_trace empty_world (snd ?ok) =
     [(OpBegin, None), (OpCreate NewsTable 50, None), (OpCreate NewsTable 50, None),
      (OpCreate NewsTable 20, None), (OpCommit, None)]"
    using c [THEN conjunct1] by (simp add: n sizes numeral_2_eq_2)
  have bad: "batchInsertNews rows120 disk_full_world =
     (Some (StorageFault ''disk full''),
      empty_world\<lparr>news_seq := 50,
                   trace := [(OpBegin, None), (OpCreate NewsTable 50, None),
                             (OpCreate NewsTable 50, Some ''disk full''),
                             (OpRollback, None)]\<rparr>)"
    by code_simp
  have kept: "news_tbl (snd (batchInsertNews rows120 disk_full_world)) = news_tbl disk_full_world"
    using batch_writer_atomic [THEN conjunct2, THEN conjunct1, rule_format,
      OF conjI [OF ne bad]] by (simp add: bad)
  show ?thesis
    by (intro conjI ne nf ok len tr bad kept)
qed

section \<open>Properties of the import loop\<close>

lemma log_line_fields:
  "news_tbl (log_line e w) = news_tbl w" "user_tbl (log_line e w) = user_tbl w"
  "rss_tbl (log_line e w) = rss_tbl w" "logs (log_line e w) = logs w @ [e]"
  "files_read (log_line e w) = files_read w" "db_connected (log_line e w) = db_connected w"
  "trace (log_line e w) = trace w" "faults (log_line e w) = faults w"
  "news_seq (log_line e w) = news_seq w"
  by (simp_all add: log_line_def)

lemma warn_time_fields:
  "news_tbl (warn_time env i c w) = news_tbl w" "user_tbl (warn_time env i c w) = user_tbl w"
  "rss_tbl (warn_time env i c w) = rss_tbl w"
  "logs (warn_time env i c w) = logs w @ time_warnings env i [c]"
  "files_read (warn_time env i c w) = files_read w"
  "db_connected (warn_time env i c w) = db_connected w"
  "trace (warn_time env i c w) = trace w" "faults (warn_time env i c w) = faults w"
  "news_seq (warn_time env i c w) = news_seq w"
  by (simp_all add: warn_time_def log_line_fields split: option.splits)

lemma first_news_cases:
  assumes "first_news g l w = (r, w')"
  shows "(\<exists>m. r = Inl (StorageFault m) \<and> faults w = Some m # faults w' \<and>
              trace w' = trace w @ [(OpFirst NewsTable, Some m)]) \<or>
         ((faults w = [] \<and> faults w' = [] \<or> faults w = None # faults w') \<and>
          trace w' = trace w @ [(OpFirst NewsTable, None)] \<and>
          r = (case find (\<lambda>r. GUID r = g \<or> Link r = l) (news_tbl w) of
                 None \<Rightarrow> Inl ErrRecordNotFound | Some x \<Rightarrow> Inr x))"
  using assms
  by (auto simp: first_news_def db_call_def split: list.splits option.splits)

lemma first_news_frame:
  assumes "first_news g l w = (r, w')"
  shows "news_tbl w' = news_tbl w" "user_tbl w' = user_tbl w" "rss_tbl w' = rss_tbl w"
    "news_seq w' = news_seq w" "logs w' = logs w" "files_read w' = files_read w"
    "db_connected w' = db_connected w"
  using assms
  by (auto simp: first_news_def db_call_def split: list.splits option.splits)

lemma first_news_nofault:
  "faults w = [] \<Longrightarrow> first_news g l w =
     (case find (\<lambda>r. GUID r = g \<or> Link r = l) (news_tbl w) of
        None \<Rightarrow> Inl ErrRecordNotFound | Some x \<Rightarrow> Inr x,
      w\<lparr>trace := trace w @ [(OpFirst NewsTable, None)]\<rparr>)"
  by (simp add: first_news_def db_call_nofault split: option.splits)

lemma import_loop_found:
  assumes "first_news (guid c) (link c) (warn_time env i c w) = (Inr x, w2)"
  shows "import_loop env i (c # cs) v w =
           import_loop env (i + 1) cs (v\<lparr>skippedCount := skippedCount v + 1\<rparr>)
             (log_line (LogSkipDuplicate (title c)) w2)"
  using assms by (simp add: Let_def)

lemma import_loop_lookup_error:
  assumes "first_news (guid c) (link c) (warn_time env i c w) = (Inl e, w2)"
    "e \<noteq> ErrRecordNotFound"
  shows "import_loop env i (c # cs) v w =
           import_loop env (i + 1) cs v (log_line (LogLookupError e) w2)"
  using assms by (simp add: Let_def)

lemma import_loop_buffered:
  assumes "first_news (guid c) (link c) (warn_time env i c w) = (Inl ErrRecordNotFound, w2)"
    "length (newsList v) + 1 < 100"
  shows "import_loop env i (c # cs) v w =
           import_loop env (i + 1) cs
             (v\<lparr>newsList := newsList v @ [to_news c (published_time env i c)],
                importedCount := importedCount v + 1\<rparr>) w2"
  using assms by (simp add: Let_def)

lemma import_loop_flush_failed:
  assumes "first_news (guid c) (link c) (warn_time env i c w) = (Inl ErrRecordNotFound, w2)"
    "100 \<le> length (newsList v) + 1"
    "batchInsertNews (newsList v @ [to_news c (published_time env i c)]) w2 = (Some e, w3)"
  shows "import_loop env i (c # cs) v w =
           (Some (Wrap ''failed to batch insert news'' e),
            v\<lparr>newsList := newsList v @ [to_news c (published_time env i c)],
              importedCount := importedCount v + 1\<rparr>, w3)"
  using assms by (simp add: Let_def)

lemma import_loop_flushed:
  assumes "first_news (guid c) (link c) (warn_time env i c w) = (Inl ErrRecordNotFound, w2)"
    "100 \<le> length (newsList v) + 1"
    "batchInsertNews (newsList v @ [to_news c (published_time env i c)]) w2 = (None, w3)"
  shows "import_loop env i (c # cs) v w =
           import_loop env (i + 1) cs
             (v\<lparr>importedCount := importedCount v + 1, newsList := []\<rparr>) w3"
  using assms by (simp add: Let_def)


declare import_loop.simps(2) [simp del]

lemma import_loop_step_cases [case_names found lookup_error buffered flush_failed flushed]:
  fixes env i c cs v w
  defines "v1 \<equiv> v\<lparr>newsList := newsList v @ [to_news c (published_time env i c)],
                    importedCount := importedCount v + 1\<rparr>"
  obtains
    x w2 where "first_news (guid c) (link c) (warn_time env i c w) = (Inr x, w2)"
      "import_loop env i (c # cs) v w =
         import_loop env (i + 1) cs (v\<lparr>skippedCount := skippedCount v + 1\<rparr>)
           (log_line (LogSkipDuplicate (title c)) w2)"
  | e w2 where "first_news (guid c) (link c) (warn_time env i c w) = (Inl e, w2)"
      "e \<noteq> ErrRecordNotFound"
      "import_loop env i (c # cs) v w =
         import_loop env (i + 1) cs v (log_line (LogLookupError e) w2)"
  | w2 where "first_news (guid c) (link c) (warn_time env i c w) = (Inl ErrRecordNotFound, w2)"
      "length (newsList v) + 1 < 100"
      "import_loop env i (c # cs) v w = import_loop env (i + 1) cs v1 w2"
  | w2 e w3 where
      "first_news (guid c) (link c) (warn_time env i c w) = (Inl ErrRecordNotFound, w2)"
      "100 \<le> length (newsList v) + 1"
      "batchInsertNews (newsList v1) w2 = (Some e, w3)"
      "import_loop env i (c # cs) v w = (Some (Wrap ''failed to batch insert news'' e), v1, w3)"
  | w2 w3 where
      "first_news (guid c) (link c) (warn_time env i c w) = (Inl ErrRecordNotFound, w2)"
      "100 \<le> length (newsList v) + 1"
      "batchInsertNews (newsList v1) w2 = (None, w3)"
      "import_loop env i (c # cs) v w = import_loop env (i + 1) cs (v1\<lparr>newsList := []\<rparr>) w3"
proof -
  obtain fr w2 where f: "first_news (guid c) (link c) (warn_time env i c w) = (fr, w2)"
    by force
  show thesis
  proof (cases fr)
    case (Inr x)
    with f that(1) import_loop_found show thesis by blast
  next
    case (Inl e)
    show thesis
    proof (cases "e = ErrRecordNotFound")
      case False
      with f Inl that(2) import_loop_lookup_error show thesis by blast
    next
      case True
      note f' = f [unfolded Inl True]
      show thesis
      proof (cases "length (newsList v) + 1 < 100")
        case True
        from that(3) [OF f' True] import_loop_buffered [OF f' True] show thesis
          by (simp add: v1_def)
      next
        case False
        then have ge: "100 \<le> length (newsList v) + 1" by simp
        obtain rb w3 where b: "batchInsertNews (newsList v1) w2 = (rb, w3)" by force
        then have b': "batchInsertNews (newsList v @ [to_news c (published_time env i c)]) w2
                        = (rb, w3)"
          by (simp add: v1_def)
        show thesis
        proof (cases rb)
          case None
          from that(5) [OF f' ge b [unfolded None]]
            import_loop_flushed [OF f' ge b' [unfolded None]]
          show thesis by (simp add: v1_def)
        next
          case (Some e)
          from that(4) [OF f' ge b [unfolded Some]]
            import_loop_flush_failed [OF f' ge b' [unfolded Some]]
          show thesis by (simp add: v1_def)
        qed
      qed
    qed
  qed
qed

lemma first_news_trace:
  assumes "first_news g l (warn_time env i c w) = (r, w2)"
  shows "\<exists>f. trace w2 = trace w @ [(OpFirst NewsTable, f)]"
  using first_news_cases [OF assms] by (auto simp: warn_time_fields)

lemma first_news_logs:
  assumes "first_news g l (warn_time env i c w) = (r, w2)"
  shows "logs w2 = logs w @ time_warnings env i [c]"
  using first_news_frame [OF assms] by (simp add: warn_time_fields)

lemma not_lookup_First [simp]: "\<not> not_lookup (OpFirst tbl, f)"
  by (simp add: not_lookup_def)

lemma filter_not_lookup_all: "list_all not_lookup t \<Longrightarrow> filter not_lookup t = t"
  by (induction t) auto


lemma lookup_errors_simps [simp]:
  "lookup_errors [] = 0"
  "lookup_errors (xs @ ys) = lookup_errors xs + lookup_errors ys"
  "lookup_errors (LogLookupError e # xs) = Suc (lookup_errors xs)"
  "lookup_errors (LogSkipDuplicate s # xs) = lookup_errors xs"
  "lookup_errors (LogTimeWarning n # xs) = lookup_errors xs"
  by (simp_all add: lookup_errors_def is_lookup_error_def)

lemma lookup_errors_time_warnings [simp]: "lookup_errors (time_warnings env i cs) = 0"
  by (induction cs arbitrary: i) (simp_all split: option.splits)

text \<open>
  The counters of a loop that runs to its end: every record is imported, skipped as a
  duplicate, or dropped with a logged lookup error.
\<close>

lemma import_loop_counts:
  assumes "import_loop env i cs v w = (r, v', w')"
  shows "\<exists>ll. logs w' = logs w @ ll \<and>
              (r = None \<longrightarrow> importedCount v' + skippedCount v' + lookup_errors ll =
                 importedCount v + skippedCount v + length cs)"
  using assms
proof (induction cs arbitrary: i v w)
  case Nil
  then have "r = None" "w' = w" "v' = v" by simp_all
  then show ?case by (intro exI [of _ "[]"]) simp
next
  case (Cons c cs)
  show ?case
  proof (cases rule: import_loop_step_cases [where c = c and env = env and i = i and w = w
        and v = v and cs = cs])
    case (found x w2)
    note l = first_news_logs [OF found(1)]
    from Cons.IH [OF Cons.prems [unfolded found(2)]] obtain ll where
      ll: "logs w' = logs (log_line (LogSkipDuplicate (title c)) w2) @ ll"
      "r = None \<longrightarrow> importedCount v' + skippedCount v' + lookup_errors ll =
         importedCount (v\<lparr>skippedCount := skippedCount v + 1\<rparr>) +
         skippedCount (v\<lparr>skippedCount := skippedCount v + 1\<rparr>) + length cs" by blast
    show ?thesis
      using ll l
      by (intro exI [of _ "time_warnings env i [c] @ LogSkipDuplicate (title c) # ll"])
         (simp add: log_line_fields del: time_warnings.simps)
  next
    case (lookup_error e w2)
    note l = first_news_logs [OF lookup_error(1)]
    from Cons.IH [OF Cons.prems [unfolded lookup_error(3)]] obtain ll where
      ll: "logs w' = logs (log_line (LogLookupError e) w2) @ ll"
      "r = None \<longrightarrow> importedCount v' + skippedCount v' + lookup_errors ll =
         importedCount v + skippedCount v + length cs" by blast
    show ?thesis
      using ll l
      by (intro exI [of _ "time_warnings env i [c] @ LogLookupError e # ll"])
         (simp add: log_line_fields del: time_warnings.simps)
  next
    case (buffered w2)
    note l = first_news_logs [OF buffered(1)]
    let ?v1 = "v\<lparr>newsList := newsList v @ [to_news c (published_time env i c)],
                    importedCount := importedCount v + 1\<rparr>"
    from Cons.IH [OF Cons.prems [unfolded buffered(3)]] obtain ll where
      ll: "logs w' = logs w2 @ ll"
      "r = None \<longrightarrow> importedCount v' + skippedCount v' + lookup_errors ll =
         importedCount ?v1 + skippedCount ?v1 + length cs" by blast
    show ?thesis
      using ll l by (intro exI [of _ "time_warnings env i [c] @ ll"]) (simp del: time_warnings.simps)
  next
    case (flush_failed w2 e w3)
    note l = first_news_logs [OF flush_failed(1)]
    from batchInsertNews_spec [OF flush_failed(3)] have b: "logs w3 = logs w2" by auto
    from Cons.prems [unfolded flush_failed(4)] have "r \<noteq> None" "w' = w3" by auto
    then show ?thesis
      using l b by (intro exI [of _ "time_warnings env i [c]"]) (auto simp del: time_warnings.simps)
  next
    case (flushed w2 w3)
    note l = first_news_logs [OF flushed(1)]
    from batchInsertNews_spec [OF flushed(3)] have b: "logs w3 = logs w2" by auto
    let ?v1 = "v\<lparr>newsList := newsList v @ [to_news c (published_time env i c)],
                    importedCount := importedCount v + 1\<rparr>"
    from Cons.IH [OF Cons.prems [unfolded flushed(4)]] obtain ll where
      ll: "logs w' = logs w3 @ ll"
      "r = None \<longrightarrow> importedCount v' + skippedCount v' + lookup_errors ll =
         importedCount (?v1\<lparr>newsList := []\<rparr>) + skippedCount (?v1\<lparr>newsList := []\<rparr>)
           + length cs" by blast
    show ?thesis
      using ll l b by (intro exI [of _ "time_warnings env i [c] @ ll"]) (simp del: time_warnings.simps)
  qed
qed

lemma import_loop_append:
  "import_loop env i (xs @ ys) v w =
     (case import_loop env i xs v w of
        (Some e, v', w') \<Rightarrow> (Some e, v', w')
      | (None, v', w') \<Rightarrow> import_loop env (i + length xs) ys v' w')"
proof (induction xs arbitrary: i v w)
  case Nil
  show ?case by simp
next
  case (Cons c xs)
  show ?case
  proof (cases rule: import_loop_step_cases [where c = c and env = env and i = i and w = w
        and v = v and cs = xs])
    case (found x w2)
    from found(1) have "import_loop env i (c # (xs @ ys)) v w =
         import_loop env (i + 1) (xs @ ys) (v\<lparr>skippedCount := skippedCount v + 1\<rparr>)
           (log_line (LogSkipDuplicate (title c)) w2)"
      by (rule import_loop_found)
    with found(2) Cons.IH show ?thesis by (simp split: prod.splits option.splits)
  next
    case (lookup_error e w2)
    from lookup_error(1,2) have "import_loop env i (c # (xs @ ys)) v w =
         import_loop env (i + 1) (xs @ ys) v (log_line (LogLookupError e) w2)"
      by (rule import_loop_lookup_error)
    with lookup_error(3) Cons.IH show ?thesis by (simp split: prod.splits option.splits)
  next
    case (buffered w2)
    from buffered(1,2) have "import_loop env i (c # (xs @ ys)) v w =
           import_loop env (i + 1) (xs @ ys)
             (v\<lparr>newsList := newsList v @ [to_news c (published_time env i c)],
                importedCount := importedCount v + 1\<rparr>) w2"
      by (rule import_loop_buffered)
    with buffered(3) Cons.IH show ?thesis by (simp split: prod.splits option.splits)
  next
    case (flush_failed w2 e w3)
    from flush_failed(3) have b: "batchInsertNews (newsList v @ [to_news c (published_time env i c)]) w2 = (Some e, w3)"
      by simp
    from import_loop_flush_failed [OF flush_failed(1,2) b, of "xs @ ys"] flush_failed(4)
    show ?thesis by simp
  next
    case (flushed w2 w3)
    from flushed(3) have b: "batchInsertNews (newsList v @ [to_news c (published_time env i c)]) w2 = (None, w3)"
      by simp
    from import_loop_flushed [OF flushed(1,2) b, of "xs @ ys"] flushed(4) Cons.IH
    show ?thesis by (simp split: prod.splits option.splits)
  qed
qed

lemma warn_time_eq: "warn_time env i c w = w\<lparr>logs := logs w @ time_warnings env i [c]\<rparr>"
  by (simp add: warn_time_def log_line_def split: option.splits)

lemma time_warnings_Cons:
  "time_warnings env i (c # cs) = time_warnings env i [c] @ time_warnings env (i + 1) cs"
  by (simp split: option.splits)

lemma time_warnings_append:
  "time_warnings env i (xs @ ys) = time_warnings env i xs @ time_warnings env (i + length xs) ys"
  by (induction xs arbitrary: i) (simp_all split: option.splits)

lemma built_news_append:
  "built_news env i (xs @ ys) = built_news env i xs @ built_news env (i + length xs) ys"
  by (induction xs arbitrary: i) simp_all

lemma length_built_news [simp]: "length (built_news env i cs) = length cs"
  by (induction cs arbitrary: i) simp_all

lemma find_fresh:
  "\<forall>r\<in>set tbl. \<not> duplicate_of c r \<Longrightarrow>
     find (\<lambda>r. GUID r = guid c \<or> Link r = link c) tbl = None"
  by (simp add: find_None_iff duplicate_of_def)

lemma import_loop_accept_small:
  assumes "faults w = []"
    "\<forall>c\<in>set cs. \<forall>r\<in>set (news_tbl w). \<not> duplicate_of c r"
    "length (newsList v) + length cs < 100"
  shows "import_loop env i cs v w =
     (None,
      v\<lparr>newsList := newsList v @ built_news env i cs,
        importedCount := importedCount v + length cs\<rparr>,
      w\<lparr>trace := trace w @ replicate (length cs) (OpFirst NewsTable, None),
        logs := logs w @ time_warnings env i cs\<rparr>)"
  using assms
proof (induction cs arbitrary: i v w)
  case Nil
  show ?case by simp
next
  case (Cons c cs)
  let ?w1 = "warn_time env i c w"
  let ?w2 = "?w1\<lparr>trace := trace ?w1 @ [(OpFirst NewsTable, None)]\<rparr>"
  let ?v1 = "v\<lparr>newsList := newsList v @ [to_news c (published_time env i c)],
                importedCount := importedCount v + 1\<rparr>"
  have fr: "find (\<lambda>r. GUID r = guid c \<or> Link r = link c) (news_tbl ?w1) = None"
    using Cons.prems(2) by (simp add: find_fresh warn_time_fields)
  have f: "first_news (guid c) (link c) ?w1 = (Inl ErrRecordNotFound, ?w2)"
    using Cons.prems(1) fr by (simp add: first_news_nofault warn_time_fields)
  have small: "length (newsList v) + 1 < 100" using Cons.prems(3) by simp
  have step: "import_loop env i (c # cs) v w = import_loop env (i + 1) cs ?v1 ?w2"
    by (rule import_loop_buffered [OF f small])
  have ih: "import_loop env (i + 1) cs ?v1 ?w2 =
     (None,
      ?v1\<lparr>newsList := newsList ?v1 @ built_news env (i + 1) cs,
        importedCount := importedCount ?v1 + length cs\<rparr>,
      ?w2\<lparr>trace := trace ?w2 @ replicate (length cs) (OpFirst NewsTable, None),
        logs := logs ?w2 @ time_warnings env (i + 1) cs\<rparr>)"
    using Cons.prems by (intro Cons.IH) (simp_all add: warn_time_fields)
  show ?case
    unfolding step ih
    by (simp add: warn_time_eq time_warnings_Cons [of env i c cs] del: time_warnings.simps)
qed

lemma import_loop_accept_flush:
  assumes "faults w = []"
    "\<forall>c\<in>set cs. \<forall>r\<in>set (news_tbl w). \<not> duplicate_of c r"
    "length (newsList v) + length cs = 100" "cs \<noteq> []"
  shows "import_loop env i cs v w =
     (None,
      v\<lparr>importedCount := importedCount v + length cs, newsList := []\<rparr>,
      w\<lparr>news_tbl := news_tbl w @ assign_ids (news_seq w) (newsList v @ built_news env i cs),
        news_seq := news_seq w + 100,
        trace := trace w @ replicate (length cs) (OpFirst NewsTable, None) @ tx_ok 100,
        logs := logs w @ time_warnings env i cs\<rparr>)"
proof -
  from assms(4) obtain xs c where cs: "cs = xs @ [c]" by (metis rev_exhaust)
  let ?v' = "v\<lparr>newsList := newsList v @ built_news env i xs,
               importedCount := importedCount v + length xs\<rparr>"
  let ?w' = "w\<lparr>trace := trace w @ replicate (length xs) (OpFirst NewsTable, None),
               logs := logs w @ time_warnings env i xs\<rparr>"
  let ?j = "i + length xs"
  have a: "import_loop env i xs v w = (None, ?v', ?w')"
    using assms cs by (intro import_loop_accept_small) simp_all
  let ?w1 = "warn_time env ?j c ?w'"
  let ?w2 = "?w1\<lparr>trace := trace ?w1 @ [(OpFirst NewsTable, None)]\<rparr>"
  let ?rows = "newsList ?v' @ [to_news c (published_time env ?j c)]"
  have fr: "find (\<lambda>r. GUID r = guid c \<or> Link r = link c) (news_tbl ?w1) = None"
    using assms(2) cs by (simp add: find_fresh warn_time_fields)
  have f: "first_news (guid c) (link c) ?w1 = (Inl ErrRecordNotFound, ?w2)"
    using assms(1) fr by (simp add: first_news_nofault warn_time_fields)
  have full: "100 \<le> length (newsList ?v') + 1" using assms(3) cs by simp
  have len: "Suc (length (newsList v) + length xs) = 100" using assms(3) cs by simp
  then have len': "Suc (news_seq w + (length (newsList v) + length xs)) = news_seq w + 100"
    by simp
  have b: "batchInsertNews ?rows ?w2 =
     (None, ?w2\<lparr>news_tbl := news_tbl ?w2 @ assign_ids (news_seq ?w2) ?rows,
              news_seq := news_seq ?w2 + length ?rows,
              trace := trace ?w2 @ tx_ok (length ?rows)\<rparr>)"
    using assms(1) by (intro batchInsertNews_nofault) (simp_all add: warn_time_fields)
  have step: "import_loop env ?j [c] ?v' ?w' =
     import_loop env (?j + 1) [] (?v'\<lparr>importedCount := importedCount ?v' + 1, newsList := []\<rparr>)
       (?w2\<lparr>news_tbl := news_tbl ?w2 @ assign_ids (news_seq ?w2) ?rows,
              news_seq := news_seq ?w2 + length ?rows,
              trace := trace ?w2 @ tx_ok (length ?rows)\<rparr>)"
    by (rule import_loop_flushed [OF f full b])
  show ?thesis
    unfolding cs import_loop_append a
    apply (simp only: prod.case option.case step import_loop.simps(1))
    apply (simp add: len len' warn_time_eq built_news_append time_warnings_append
        replicate_append_same del: time_warnings.simps)
    done
qed


lemma map_GUID_assign_ids [simp]: "map GUID (assign_ids k rs) = map GUID rs"
  by (induction rs arbitrary: k) simp_all

lemma map_Link_assign_ids [simp]: "map Link (assign_ids k rs) = map Link rs"
  by (induction rs arbitrary: k) simp_all

lemma map_GUID_built_news [simp]: "map GUID (built_news env i cs) = map guid cs"
  by (induction cs arbitrary: i) (simp_all add: to_news_def)

lemma map_Link_built_news [simp]: "map Link (built_news env i cs) = map link cs"
  by (induction cs arbitrary: i) (simp_all add: to_news_def)

lemma fresh_from_distinct:
  assumes "distinct (map GUID tbl @ map guid cs)" "distinct (map Link tbl @ map link cs)"
  shows "\<forall>c\<in>set cs. \<forall>r\<in>set tbl. \<not> duplicate_of c r"
proof (intro ballI)
  fix c r
  assume c: "c \<in> set cs" and r: "r \<in> set tbl"
  from assms(1) have "set (map GUID tbl) \<inter> set (map guid cs) = {}" by simp
  with c r have g: "GUID r \<noteq> guid c" by auto
  from assms(2) have "set (map Link tbl) \<inter> set (map link cs) = {}" by simp
  with c r have l: "Link r \<noteq> link c" by auto
  from g l show "\<not> duplicate_of c r" by (simp add: duplicate_of_def)
qed

lemma import_loop_accept_all:
  assumes "faults w = []" "newsList v = []"
    "distinct (map GUID (news_tbl w) @ map guid cs)"
    "distinct (map Link (news_tbl w) @ map link cs)"
  shows "import_loop env i cs v w =
     (None,
      v\<lparr>importedCount := importedCount v + length cs,
        newsList := drop (100 * (length cs div 100)) (built_news env i cs)\<rparr>,
      w\<lparr>news_tbl := news_tbl w @
          assign_ids (news_seq w) (take (100 * (length cs div 100)) (built_news env i cs)),
        news_seq := news_seq w + 100 * (length cs div 100),
        trace := trace w @
          concat (replicate (length cs div 100)
                    (replicate 100 (OpFirst NewsTable, None) @ tx_ok 100)) @
          replicate (length cs mod 100) (OpFirst NewsTable, None),
        logs := logs w @ time_warnings env i cs\<rparr>)"
  using assms
proof (induction q \<equiv> "length cs div 100" arbitrary: cs i v w)
  case 0
  then have small: "length cs < 100" by (simp add: div_eq_0_iff)
  have fresh: "\<forall>c\<in>set cs. \<forall>r\<in>set (news_tbl w). \<not> duplicate_of c r"
    by (rule fresh_from_distinct [OF "0.prems"(3,4)])
  have "import_loop env i cs v w =
     (None,
      v\<lparr>newsList := newsList v @ built_news env i cs,
        importedCount := importedCount v + length cs\<rparr>,
      w\<lparr>trace := trace w @ replicate (length cs) (OpFirst NewsTable, None),
        logs := logs w @ time_warnings env i cs\<rparr>)"
    using "0.prems"(1,2) fresh small by (intro import_loop_accept_small) simp_all
  then show ?case
    using "0.hyps" [symmetric] small "0.prems"(2) by simp
next
  case (Suc q)
  from Suc.hyps(2) have ge: "100 \<le> length cs"
    by (metis div_less not_less Zero_not_Suc)
  obtain xs ys where cs: "cs = xs @ ys" and lx: "length xs = 100"
  proof
    show "cs = take 100 cs @ drop 100 cs" by simp
    show "length (take 100 cs) = 100" using ge by simp
  qed
  have qy: "q = length ys div 100"
    using Suc.hyps(2) by (simp add: cs lx)
  have dv: "length cs div 100 = Suc (length ys div 100)"
    by (simp add: cs lx)
  have my: "length cs mod 100 = length ys mod 100"
    by (simp add: cs lx)
  have dg: "distinct (map GUID (news_tbl w) @ map guid xs @ map guid ys)"
    using Suc.prems(3) by (simp add: cs)
  have dl: "distinct (map Link (news_tbl w) @ map link xs @ map link ys)"
    using Suc.prems(4) by (simp add: cs)
  have fresh: "\<forall>c\<in>set xs. \<forall>r\<in>set (news_tbl w). \<not> duplicate_of c r"
    using dg dl by (intro fresh_from_distinct) auto
  let ?v1 = "v\<lparr>importedCount := importedCount v + length xs, newsList := []\<rparr>"
  let ?w1 = "w\<lparr>news_tbl := news_tbl w @
                 assign_ids (news_seq w) (newsList v @ built_news env i xs),
               news_seq := news_seq w + 100,
               trace := trace w @ replicate (length xs) (OpFirst NewsTable, None) @ tx_ok 100,
               logs := logs w @ time_warnings env i xs\<rparr>"
  have a: "import_loop env i xs v w = (None, ?v1, ?w1)"
    using Suc.prems(1,2) fresh lx by (intro import_loop_accept_flush) auto
  have ih: "import_loop env (i + 100) ys ?v1 ?w1 =
     (None,
      ?v1\<lparr>importedCount := importedCount ?v1 + length ys,
        newsList := drop (100 * (length ys div 100)) (built_news env (i + 100) ys)\<rparr>,
      ?w1\<lparr>news_tbl := news_tbl ?w1 @
          assign_ids (news_seq ?w1)
            (take (100 * (length ys div 100)) (built_news env (i + 100) ys)),
        news_seq := news_seq ?w1 + 100 * (length ys div 100),
        trace := trace ?w1 @
          concat (replicate (length ys div 100)
                    (replicate 100 (OpFirst NewsTable, None) @ tx_ok 100)) @
          replicate (length ys mod 100) (OpFirst NewsTable, None),
        logs := logs ?w1 @ time_warnings env (i + 100) ys\<rparr>)"
    using Suc.prems(1,2) dg dl by (intro Suc.hyps(1) [OF qy]) auto
  have bn: "built_news env i cs = built_news env i xs @ built_news env (i + 100) ys"
    by (simp add: cs built_news_append lx)
  have tw: "time_warnings env i cs = time_warnings env i xs @ time_warnings env (i + 100) ys"
    by (simp add: cs time_warnings_append lx)
  have lb: "length (built_news env i xs) = 100" using lx by simp
  have tk: "take (100 * (length cs div 100)) (built_news env i cs) =
            built_news env i xs @ take (100 * (length ys div 100)) (built_news env (i + 100) ys)"
    unfolding dv bn using lb by simp
  have dr: "drop (100 * (length cs div 100)) (built_news env i cs) =
            drop (100 * (length ys div 100)) (built_news env (i + 100) ys)"
    unfolding dv bn using lb by simp
  have lc: "length cs = 100 + length ys" by (simp add: cs lx)
  have "import_loop env i cs v w = import_loop env (i + 100) ys ?v1 ?w1"
    using import_loop_append [of env i xs ys v w] a lx by (simp add: cs)
  also note ih
  finally show ?case
    unfolding tk dr tw
    unfolding my dv lc
    using Suc.prems(2) lb
    by (simp add: assign_ids_append lx add.assoc del: time_warnings.simps)
qed

text \<open>
  A loop that starts with fewer than 100 buffered rows and runs to its end: with \<open>acc\<close>
  the rows it accepted, in order, the rows that were buffered or accepted have been
  inserted in transactions of exactly 100 rows, one for every full hundred, and the rest
  is in the buffer.
\<close>

lemma import_loop_units:
  assumes "import_loop env i cs v w = (None, v', w')" "length (newsList v) < 100"
  shows "\<exists>acc t. subseq acc (built_news env i cs) \<and>
           importedCount v' = importedCount v + length acc \<and>
           newsList v' = drop (100 * ((length (newsList v) + length acc) div 100))
                              (newsList v @ acc) \<and>
           news_tbl w' = news_tbl w @ assign_ids (news_seq w)
              (take (100 * ((length (newsList v) + length acc) div 100)) (newsList v @ acc)) \<and>
           news_seq w' = news_seq w + 100 * ((length (newsList v) + length acc) div 100) \<and>
           trace w' = trace w @ t \<and>
           filter not_lookup t =
             concat (replicate ((length (newsList v) + length acc) div 100) (tx_ok 100))"
  using assms
proof (induction cs arbitrary: i v w)
  case Nil
  then have "v' = v" "w' = w" by simp_all
  with Nil.prems(2) show ?case
    by (intro exI [of _ "[]"]) simp
next
  case (Cons c cs)
  let ?row = "to_news c (published_time env i c)"
  show ?case
  proof (cases rule: import_loop_step_cases [where c = c and env = env and i = i and w = w
        and v = v and cs = cs])
    case (found x w2)
    from first_news_trace [OF found(1)] obtain f where
      f: "trace w2 = trace w @ [(OpFirst NewsTable, f)]" by blast
    note fr = first_news_frame [OF found(1)]
    let ?v1 = "v\<lparr>skippedCount := skippedCount v + 1\<rparr>"
    let ?w1 = "log_line (LogSkipDuplicate (title c)) w2"
    have b: "length (newsList ?v1) < 100" using Cons.prems(2) by simp
    from Cons.IH [OF Cons.prems(1) [unfolded found(2)] b] obtain acc t where
      a: "subseq acc (built_news env (i + 1) cs)"
        "importedCount v' = importedCount ?v1 + length acc"
        "newsList v' = drop (100 * ((length (newsList ?v1) + length acc) div 100))
                              (newsList ?v1 @ acc)"
        "news_tbl w' = news_tbl ?w1 @ assign_ids (news_seq ?w1)
              (take (100 * ((length (newsList ?v1) + length acc) div 100)) (newsList ?v1 @ acc))"
        "news_seq w' = news_seq ?w1 + 100 * ((length (newsList ?v1) + length acc) div 100)"
        "trace w' = trace ?w1 @ t"
        "filter not_lookup t =
             concat (replicate ((length (newsList ?v1) + length acc) div 100) (tx_ok 100))"
      by blast
    have sb: "subseq acc (built_news env i (c # cs))"
      using a(1) by (simp add: list_emb_Cons)
    show ?thesis
      using a(2-) f fr sb
      by (intro exI [of _ acc] exI [of _ "(OpFirst NewsTable, f) # t"])
         (simp add: log_line_fields warn_time_fields del: built_news.simps)
  next
    case (lookup_error e w2)
    from first_news_trace [OF lookup_error(1)] obtain f where
      f: "trace w2 = trace w @ [(OpFirst NewsTable, f)]" by blast
    note fr = first_news_frame [OF lookup_error(1)]
    let ?w1 = "log_line (LogLookupError e) w2"
    from Cons.IH [OF Cons.prems(1) [unfolded lookup_error(3)] Cons.prems(2)] obtain acc t where
      a: "subseq acc (built_news env (i + 1) cs)"
        "importedCount v' = importedCount v + length acc"
        "newsList v' = drop (100 * ((length (newsList v) + length acc) div 100))
                              (newsList v @ acc)"
        "news_tbl w' = news_tbl ?w1 @ assign_ids (news_seq ?w1)
              (take (100 * ((length (newsList v) + length acc) div 100)) (newsList v @ acc))"
        "news_seq w' = news_seq ?w1 + 100 * ((length (newsList v) + length acc) div 100)"
        "trace w' = trace ?w1 @ t"
        "filter not_lookup t =
             concat (replicate ((length (newsList v) + length acc) div 100) (tx_ok 100))"
      by blast
    have sb: "subseq acc (built_news env i (c # cs))"
      using a(1) by (simp add: list_emb_Cons)
    show ?thesis
      using a(2-) f fr sb
      by (intro exI [of _ acc] exI [of _ "(OpFirst NewsTable, f) # t"])
         (simp add: log_line_fields warn_time_fields del: built_news.simps)
  next
    case (buffered w2)
    from first_news_trace [OF buffered(1)] obtain f where
      f: "trace w2 = trace w @ [(OpFirst NewsTable, f)]" by blast
    note fr = first_news_frame [OF buffered(1)]
    let ?v1 = "v\<lparr>newsList := newsList v @ [?row], importedCount := importedCount v + 1\<rparr>"
    have b: "length (newsList ?v1) < 100" using buffered(2) by simp
    from Cons.IH [OF Cons.prems(1) [unfolded buffered(3)] b] obtain acc t where
      a: "subseq acc (built_news env (i + 1) cs)"
        "importedCount v' = importedCount ?v1 + length acc"
        "newsList v' = drop (100 * ((length (newsList ?v1) + length acc) div 100))
                              (newsList ?v1 @ acc)"
        "news_tbl w' = news_tbl w2 @ assign_ids (news_seq w2)
              (take (100 * ((length (newsList ?v1) + length acc) div 100)) (newsList ?v1 @ acc))"
        "news_seq w' = news_seq w2 + 100 * ((length (newsList ?v1) + length acc) div 100)"
        "trace w' = trace w2 @ t"
        "filter not_lookup t =
             concat (replicate ((length (newsList ?v1) + length acc) div 100) (tx_ok 100))"
      by blast
    show ?thesis
      using a f fr
      by (intro exI [of _ "?row # acc"] exI [of _ "(OpFirst NewsTable, f) # t"])
         (simp add: warn_time_fields)
  next
    case (flush_failed w2 e w3)
    with Cons.prems(1) show ?thesis by simp
  next
    case (flushed w2 w3)
    from first_news_trace [OF flushed(1)] obtain f where
      f: "trace w2 = trace w @ [(OpFirst NewsTable, f)]" by blast
    note fr = first_news_frame [OF flushed(1)]
    let ?v1 = "v\<lparr>newsList := newsList v @ [?row], importedCount := importedCount v + 1\<rparr>"
    have len: "length (newsList v) = 99" using flushed(2) Cons.prems(2) by simp
    have bi: "batchInsertNews (newsList v @ [?row]) w2 = (None, w3)"
      using flushed(3) by simp
    from batchInsertNews_spec [OF bi] obtain tb where
      tb: "trace w3 = trace w2 @ tb" "list_all not_lookup tb"
        "news_tbl w3 = news_tbl w2 @ assign_ids (news_seq w2) (newsList v @ [?row])"
        "tb = tx_ok (length (newsList v @ [?row]))" by auto
    note sq = batchInsertNews_seq [OF bi]
    have b: "length (newsList (?v1\<lparr>newsList := []\<rparr>)) < 100" by simp
    from Cons.IH [OF Cons.prems(1) [unfolded flushed(4)] b] obtain acc t where
      a: "subseq acc (built_news env (i + 1) cs)"
        "importedCount v' = importedCount v + 1 + length acc"
        "newsList v' = drop (100 * (length acc div 100)) acc"
        "news_tbl w' = news_tbl w3 @ assign_ids (news_seq w3)
              (take (100 * (length acc div 100)) acc)"
        "news_seq w' = news_seq w3 + 100 * (length acc div 100)"
        "trace w' = trace w3 @ t"
        "filter not_lookup t = concat (replicate (length acc div 100) (tx_ok 100))"
      by auto
    have dv: "(length (newsList v) + length (?row # acc)) div 100 = Suc (length acc div 100)"
      using len by simp
    have tk: "take (100 * Suc (length acc div 100)) (newsList v @ ?row # acc) =
              (newsList v @ [?row]) @ take (100 * (length acc div 100)) acc"
      using len by simp
    have dr: "drop (100 * Suc (length acc div 100)) (newsList v @ ?row # acc) =
              drop (100 * (length acc div 100)) acc"
      using len by simp
    have l100: "length (newsList v @ [?row]) = 100" using len by simp
    show ?thesis
      apply (intro exI [of _ "?row # acc"] exI [of _ "(OpFirst NewsTable, f) # tb @ t"])
      unfolding dv tk dr
      using a f fr tb sq l100
      apply (simp add: warn_time_fields assign_ids_append filter_not_lookup_all add.assoc)
      done
  qed
qed
section \<open>Properties of the news import\<close>

lemma count_news_runs:
  assumes "next_runs w"
  shows "count_news w =
     (Inr (int (length (news_tbl w))),
      w\<lparr>faults := tl (faults w), trace := trace w @ [(OpCount NewsTable, None)]\<rparr>)"
  using assms
  by (auto simp: count_news_def db_call_def next_runs_def split: list.splits)

lemma next_runs_log_line [simp]: "next_runs (log_line e w) = next_runs w"
  by (simp add: next_runs_def log_line_def)

text \<open>
  C1. When the store is connected, holds at least one news row and answers the count,
  \<^verbatim>\<open>SeedNewsFromJSON\<close> returns no error after that one statement: no file is read, no
  row is inserted, the news table is as before, and the log has the opening line and the
  line that reports the existing rows, with no line for a record and no line with
  counters.
\<close>

theorem import_skipped_when_news_exist:
  assumes "db_connected w" "news_tbl w \<noteq> []" "next_runs w"
  shows "SeedNewsFromJSON env path w =
           (None,
            w\<lparr>faults := tl (faults w),
              trace := trace w @ [(OpCount NewsTable, None)],
              logs := logs w @ [LogImportStart path,
                                LogNewsExist (int (length (news_tbl w)))]\<rparr>) \<and>
         news_tbl (snd (SeedNewsFromJSON env path w)) = news_tbl w \<and>
         files_read (snd (SeedNewsFromJSON env path w)) = files_read w \<and>
         new_trace w (snd (SeedNewsFromJSON env path w)) = [(OpCount NewsTable, None)] \<and>
         new_logs w (snd (SeedNewsFromJSON env path w)) =
           [LogImportStart path, LogNewsExist (int (length (news_tbl w)))]"
proof -
  let ?w0 = "log_line (LogImportStart path) w"
  have c: "count_news ?w0 =
     (Inr (int (length (news_tbl ?w0))),
      ?w0\<lparr>faults := tl (faults ?w0), trace := trace ?w0 @ [(OpCount NewsTable, None)]\<rparr>)"
    using assms(3) by (intro count_news_runs) simp
  have pos: "0 < int (length (news_tbl ?w0))"
    using assms(2) by (simp add: log_line_fields)
  have eq: "SeedNewsFromJSON env path w =
           (None,
            w\<lparr>faults := tl (faults w),
              trace := trace w @ [(OpCount NewsTable, None)],
              logs := logs w @ [LogImportStart path,
                                LogNewsExist (int (length (news_tbl w)))]\<rparr>)"
    using assms(1) pos
    by (simp add: SeedNewsFromJSON_def Let_def c log_line_fields)
  show ?thesis
    unfolding eq by (simp add: new_trace_def new_logs_def)
qed

lemma SeedNewsFromJSON_empty_store:
  assumes "db_connected w" "next_runs w" "news_tbl w = []"
    "ReadFile env p = Inr d" "Unmarshal env d = Inr cs"
  shows "SeedNewsFromJSON env p w =
     (case import_loop env 0 cs \<lparr>newsList = [], importedCount = 0, skippedCount = 0\<rparr>
             (w\<lparr>faults := tl (faults w),
                trace := trace w @ [(OpCount NewsTable, None)],
                logs := logs w @ [LogImportStart p, LogParsed (length cs)],
                files_read := files_read w @ [p]\<rparr>) of
        (Some err, v, w3) \<Rightarrow> (Some err, w3)
      | (None, v, w3) \<Rightarrow>
          (case (if length (newsList v) > 0 then batchInsertNews (newsList v) w3
                 else (None, w3)) of
             (Some err, w4) \<Rightarrow> (Some (Wrap ''failed to insert remaining news'' err), w4)
           | (None, w4) \<Rightarrow>
               (None, log_line (LogImportDone (importedCount v) (skippedCount v)) w4)))"
proof -
  let ?w0 = "log_line (LogImportStart p) w"
  have c: "count_news ?w0 =
     (Inr (int (length (news_tbl ?w0))),
      ?w0\<lparr>faults := tl (faults ?w0), trace := trace ?w0 @ [(OpCount NewsTable, None)]\<rparr>)"
    using assms(2) by (intro count_news_runs) simp
  have z: "int (length (news_tbl ?w0)) = 0"
    using assms(3) by (simp add: log_line_fields)
  have w: "w\<lparr>faults := tl (faults w), trace := trace w @ [(OpCount NewsTable, None)],
             files_read := files_read w @ [p],
             logs := logs w @ [LogImportStart p, LogParsed (length cs)]\<rparr> =
           w\<lparr>faults := tl (faults w),
                trace := trace w @ [(OpCount NewsTable, None)],
                logs := logs w @ [LogImportStart p, LogParsed (length cs)],
                files_read := files_read w @ [p]\<rparr>"
    by simp
  show ?thesis
    using assms(1,4,5)
    apply (simp add: SeedNewsFromJSON_def Let_def c assms(3) log_line_fields)
    apply (simp add: log_line_def w)
    done
qed


lemma next_runs_nofault: "faults w = [] \<Longrightarrow> next_runs w"
  by (simp add: next_runs_def)

lemma div_mod_100: "100 * (n div 100) + n mod 100 = (n::nat)"
  by simp

lemma SeedNewsFromJSON_accept_all:
  assumes "db_connected w" "faults w = []" "news_tbl w = []"
    "ReadFile env p = Inr d" "Unmarshal env d = Inr cs"
    "distinct (map guid cs)" "distinct (map link cs)"
  shows "SeedNewsFromJSON env p w =
     (None,
      w\<lparr>news_tbl := assign_ids (news_seq w) (built_news env 0 cs),
        news_seq := news_seq w + length cs,
        trace := trace w @ import_trace (length cs),
        logs := logs w @ [LogImportStart p, LogParsed (length cs)] @ time_warnings env 0 cs @
                  [LogImportDone (length cs) 0],
        files_read := files_read w @ [p]\<rparr>)"
proof -
  let ?n = "length cs"
  let ?k = "100 * (length cs div 100)"
  let ?b = "built_news env 0 cs"
  let ?wstart = "w\<lparr>faults := tl (faults w),
                trace := trace w @ [(OpCount NewsTable, None)],
                logs := logs w @ [LogImportStart p, LogParsed (length cs)],
                files_read := files_read w @ [p]\<rparr>"
  let ?vinit = "\<lparr>newsList = [], importedCount = 0, skippedCount = 0\<rparr>"
  let ?vend = "?vinit\<lparr>importedCount := importedCount ?vinit + length cs, newsList := drop ?k ?b\<rparr>"
  let ?w3 = "?wstart\<lparr>news_tbl := news_tbl ?wstart @ assign_ids (news_seq ?wstart) (take ?k ?b),
        news_seq := news_seq ?wstart + ?k,
        trace := trace ?wstart @
          concat (replicate (length cs div 100)
                    (replicate 100 (OpFirst NewsTable, None) @ tx_ok 100)) @
          replicate (length cs mod 100) (OpFirst NewsTable, None),
        logs := logs ?wstart @ time_warnings env 0 cs\<rparr>"
  have loop: "import_loop env 0 cs ?vinit ?wstart = (None, ?vend, ?w3)"
    using assms by (intro import_loop_accept_all) simp_all
  have top: "SeedNewsFromJSON env p w =
     (case (if length (newsList ?vend) > 0 then batchInsertNews (newsList ?vend) ?w3
            else (None, ?w3)) of
        (Some err, w4) \<Rightarrow> (Some (Wrap ''failed to insert remaining news'' err), w4)
      | (None, w4) \<Rightarrow>
          (None, log_line (LogImportDone (importedCount ?vend) (skippedCount ?vend)) w4))"
    unfolding SeedNewsFromJSON_empty_store [OF assms(1) next_runs_nofault [OF assms(2)]
        assms(3,4,5)] loop
    by (simp only: prod.case option.case)
  have lk: "?k \<le> ?n" by simp
  have ltk: "length (take ?k ?b) = ?k" using lk by simp
  have ldr: "length (drop ?k ?b) = ?n mod 100"
    by (simp add: minus_mult_div_eq_mod)
  have ids: "assign_ids (news_seq w) (take ?k ?b) @ assign_ids (news_seq w + ?k) (drop ?k ?b)
               = assign_ids (news_seq w) ?b"
    using assign_ids_append [of "news_seq w" "take ?k ?b" "drop ?k ?b"] ltk by simp
  show ?thesis
  proof (cases "?n mod 100 = 0")
    case True
    then have e: "drop ?k ?b = []" using ldr by simp
    then have tk: "take ?k ?b = ?b" by (metis append_take_drop_id append_Nil2)
    have kn: "?k = ?n" using div_mod_100 [of ?n] True by simp
    show ?thesis
      unfolding top
      by (simp add: e tk True kn import_trace_def log_line_def assms(2,3)
          del: time_warnings.simps)
  next
    case False
    then have ne: "drop ?k ?b \<noteq> []" using ldr by auto
    have b: "batchInsertNews (drop ?k ?b) ?w3 =
      (None, ?w3\<lparr>news_tbl := news_tbl ?w3 @ assign_ids (news_seq ?w3) (drop ?k ?b),
              news_seq := news_seq ?w3 + length (drop ?k ?b),
              trace := trace ?w3 @ tx_ok (length (drop ?k ?b))\<rparr>)"
      using assms(2) ne by (intro batchInsertNews_nofault) simp_all
    have nl: "newsList ?vend = drop ?k ?b" by simp
    have pos: "0 < length (drop ?k ?b)" using ne by simp
    show ?thesis
      unfolding top nl
      apply (simp only: pos if_True b prod.case option.case)
      apply (simp add: ldr False import_trace_def log_line_def assms(2,3) ids add.assoc
          del: time_warnings.simps length_drop)
      done
  qed
qed

lemma SeedNewsFromJSON_accept_small:
  assumes "db_connected w" "faults w = []" "news_tbl w = []"
    "ReadFile env p = Inr d" "Unmarshal env d = Inr cs" "length cs < 100"
  shows "SeedNewsFromJSON env p w =
     (None,
      w\<lparr>news_tbl := assign_ids (news_seq w) (built_news env 0 cs),
        news_seq := news_seq w + length cs,
        trace := trace w @ import_trace (length cs),
        logs := logs w @ [LogImportStart p, LogParsed (length cs)] @ time_warnings env 0 cs @
                  [LogImportDone (length cs) 0],
        files_read := files_read w @ [p]\<rparr>)"
proof -
  let ?b = "built_news env 0 cs"
  let ?wstart = "w\<lparr>faults := tl (faults w),
                trace := trace w @ [(OpCount NewsTable, None)],
                logs := logs w @ [LogImportStart p, LogParsed (length cs)],
                files_read := files_read w @ [p]\<rparr>"
  let ?vinit = "\<lparr>newsList = [], importedCount = 0, skippedCount = 0\<rparr>"
  let ?vend = "?vinit\<lparr>newsList := newsList ?vinit @ ?b,
                 importedCount := importedCount ?vinit + length cs\<rparr>"
  let ?w3 = "?wstart\<lparr>trace := trace ?wstart @ replicate (length cs) (OpFirst NewsTable, None),
        logs := logs ?wstart @ time_warnings env 0 cs\<rparr>"
  have loop: "import_loop env 0 cs ?vinit ?wstart = (None, ?vend, ?w3)"
    using assms by (intro import_loop_accept_small) simp_all
  have top: "SeedNewsFromJSON env p w =
     (case (if length (newsList ?vend) > 0 then batchInsertNews (newsList ?vend) ?w3
            else (None, ?w3)) of
        (Some err, w4) \<Rightarrow> (Some (Wrap ''failed to insert remaining news'' err), w4)
      | (None, w4) \<Rightarrow>
          (None, log_line (LogImportDone (importedCount ?vend) (skippedCount ?vend)) w4))"
    unfolding SeedNewsFromJSON_empty_store [OF assms(1) next_runs_nofault [OF assms(2)]
        assms(3,4,5)] loop
    by (simp only: prod.case option.case)
  have nl: "newsList ?vend = ?b" by simp
  have dm: "length cs div 100 = 0" "length cs mod 100 = length cs"
    using assms(6) by simp_all
  show ?thesis
  proof (cases "cs = []")
    case True
    show ?thesis
      unfolding top nl
      by (simp add: True import_trace_def log_line_def assms(2,3))
  next
    case False
    have ne: "?b \<noteq> []"
      using False length_built_news [of env 0 cs] by (metis length_0_conv)
    have b: "batchInsertNews ?b ?w3 =
      (None, ?w3\<lparr>news_tbl := news_tbl ?w3 @ assign_ids (news_seq ?w3) ?b,
              news_seq := news_seq ?w3 + length ?b,
              trace := trace ?w3 @ tx_ok (length ?b)\<rparr>)"
      using assms(2) ne by (intro batchInsertNews_nofault) simp_all
    have pos: "0 < length ?b" using False by simp
    show ?thesis
      unfolding top nl
      apply (simp only: pos if_True b prod.case option.case)
      apply (simp add: dm False import_trace_def log_line_def assms(2,3)
          del: time_warnings.simps)
      done
  qed
qed

text \<open>The run of C1 on a store with one row.\<close>

theorem import_skipped_when_news_exist_witness:
  "db_connected g1_world \<and> news_tbl g1_world \<noteq> [] \<and> next_runs g1_world \<and>
   SeedNewsFromJSON (test_env g1_items (\<lambda>k. [])) ''news.json'' g1_world =
     (None, g1_world\<lparr>faults := [], trace := [(OpCount NewsTable, None)],
                     logs := [LogImportStart ''news.json'', LogNewsExist 1]\<rparr>) \<and>
   length (news_tbl (snd (SeedNewsFromJSON (test_env g1_items (\<lambda>k. [])) ''news.json''
                            g1_world))) = 1 \<and>
   files_read (snd (SeedNewsFromJSON (test_env g1_items (\<lambda>k. [])) ''news.json''
                      g1_world)) = []"
proof -
  have h: "db_connected g1_world" "news_tbl g1_world \<noteq> []" "next_runs g1_world"
    by (simp_all add: g1_world_def empty_world_def next_runs_def)
  have f: "faults g1_world = []" "trace g1_world = []" "logs g1_world = []"
    "length (news_tbl g1_world) = 1" "files_read g1_world = []"
    by (simp_all add: g1_world_def empty_world_def)
  note t = import_skipped_when_news_exist [OF h, of "test_env g1_items (\<lambda>k. [])" "''news.json''"]
  show ?thesis
    using h t by (simp add: f)
qed

text \<open>
  C2, as the code has it. Two records imported into a connected, empty store that runs
  every statement are both counted as imported and none as skipped, whatever their GUIDs
  and links: the lookup of the second record reads the table, and the row of the first is
  still in the buffer. Both rows are inserted by the one transaction at the end.
\<close>

theorem two_records_both_imported:
  assumes "db_connected w" "faults w = []" "news_tbl w = []"
    "ReadFile env p = Inr d" "Unmarshal env d = Inr [c1, c2]"
  shows "fst (SeedNewsFromJSON env p w) = None \<and>
         last (logs (snd (SeedNewsFromJSON env p w))) = LogImportDone 2 0 \<and>
         news_tbl (snd (SeedNewsFromJSON env p w)) =
           [(to_news c1 (published_time env 0 c1))\<lparr>ID := news_seq w + 1\<rparr>,
            (to_news c2 (published_time env 1 c2))\<lparr>ID := news_seq w + 2\<rparr>] \<and>
         new_trace w (snd (SeedNewsFromJSON env p w)) =
           [(OpCount NewsTable, None), (OpFirst NewsTable, None), (OpFirst NewsTable, None),
            (OpBegin, None), (OpCreate NewsTable 2, None), (OpCommit, None)]"
proof -
  have l: "length [c1, c2] < 100" by simp
  have t: "tx_ok (Suc (Suc 0)) =
             [(OpBegin, None), (OpCreate NewsTable 2, None), (OpCommit, None)]"
    by code_simp
  show ?thesis
    unfolding SeedNewsFromJSON_accept_small [OF assms l]
    by (simp add: new_trace_def import_trace_def t del: time_warnings.simps)
qed

theorem two_records_both_imported_witness:
  "db_connected empty_world \<and> faults empty_world = [] \<and> news_tbl empty_world = [] \<and>
   ReadFile (test_env g1_items (\<lambda>k. [])) ''news.json'' = Inr ''news.json'' \<and>
   Unmarshal (test_env g1_items (\<lambda>k. [])) ''news.json'' =
     Inr [item ''g1'' ''http://a'', item ''g1'' ''http://b''] \<and>
   last (logs (snd (SeedNewsFromJSON (test_env g1_items (\<lambda>k. [])) ''news.json''
                      empty_world))) = LogImportDone 2 0 \<and>
   length (news_tbl (snd (SeedNewsFromJSON (test_env g1_items (\<lambda>k. [])) ''news.json''
                            empty_world))) = 2"
proof -
  have h: "db_connected empty_world" "faults empty_world = []" "news_tbl empty_world = []"
    "ReadFile (test_env g1_items (\<lambda>k. [])) ''news.json'' = Inr ''news.json''"
    "Unmarshal (test_env g1_items (\<lambda>k. [])) ''news.json'' =
       Inr [item ''g1'' ''http://a'', item ''g1'' ''http://b'']"
    by (simp_all add: empty_world_def test_env_def g1_items_def)
  note t = two_records_both_imported [OF h]
  show ?thesis
    using h t by simp
qed

text \<open>
  The example of the specification: the counters are 2 and 0, not 1 and 1, and two rows
  with the GUID g1 are stored.
\<close>

theorem g1_twice_counterexample:
  "last (logs (snd (SeedNewsFromJSON (test_env g1_items (\<lambda>k. [])) ''news.json''
                      empty_world))) = LogImportDone 2 0 \<and>
   LogImportDone 1 1 \<notin> set (logs (snd (SeedNewsFromJSON (test_env g1_items (\<lambda>k. []))
                                          ''news.json'' empty_world))) \<and>
   map GUID (news_tbl (snd (SeedNewsFromJSON (test_env g1_items (\<lambda>k. [])) ''news.json''
                              empty_world))) = [''g1'', ''g1'']"
proof -
  have h: "db_connected empty_world" "faults empty_world = []" "news_tbl empty_world = []"
    "ReadFile (test_env g1_items (\<lambda>k. [])) ''news.json'' = Inr ''news.json''"
    "Unmarshal (test_env g1_items (\<lambda>k. [])) ''news.json'' = Inr g1_items"
    by (simp_all add: empty_world_def test_env_def)
  have l: "length g1_items < 100" by (simp add: g1_items_def)
  have tw: "time_warnings (test_env g1_items (\<lambda>k. [])) 0 g1_items = []"
    by (simp add: g1_items_def test_env_def item_def blank_item_def)
  have b: "map guid g1_items = [''g1'', ''g1'']"
    by (simp add: g1_items_def item_def)
  have n: "length g1_items = 2" by (simp add: g1_items_def)
  show ?thesis
    unfolding SeedNewsFromJSON_accept_small [OF h l]
    by (simp add: tw b n empty_world_def del: time_warnings.simps)
qed

lemma find_duplicate:
  "\<exists>r\<in>set tbl. duplicate_of c r \<Longrightarrow>
     \<exists>x. find (\<lambda>r. GUID r = guid c \<or> Link r = link c) tbl = Some x"
  by (cases "find (\<lambda>r. GUID r = guid c \<or> Link r = link c) tbl")
     (auto simp: find_None_iff duplicate_of_def)

lemma first_news_runs:
  assumes "next_runs w"
  shows "first_news g l w =
     (case find (\<lambda>r. GUID r = g \<or> Link r = l) (news_tbl w) of
        None \<Rightarrow> Inl ErrRecordNotFound | Some x \<Rightarrow> Inr x,
      w\<lparr>faults := tl (faults w), trace := trace w @ [(OpFirst NewsTable, None)]\<rparr>)"
  using assms
  by (auto simp: first_news_def db_call_def next_runs_def split: list.splits option.splits)

lemma first_news_fault:
  assumes "faults w = Some m # fs"
  shows "first_news g l w =
     (Inl (StorageFault m), w\<lparr>faults := fs, trace := trace w @ [(OpFirst NewsTable, Some m)]\<rparr>)"
  using assms by (simp add: first_news_def db_call_def)

lemma next_runs_warn_time [simp]: "next_runs (warn_time env i c w) = next_runs w"
  by (simp add: next_runs_def warn_time_fields)

lemma SeedNewsFromJSON_units:
  assumes "db_connected w" "next_runs w" "news_tbl w = []"
    "ReadFile env p = Inr d" "Unmarshal env d = Inr cs"
    "SeedNewsFromJSON env p w = (None, w')"
  shows "\<exists>acc s. subseq acc (built_news env 0 cs) \<and>
           last (logs w') = LogImportDone (length acc) s \<and>
           news_tbl w' = assign_ids (news_seq w) acc \<and>
           filter not_lookup (new_trace w w') =
             (OpCount NewsTable, None) # concat (replicate (length acc div 100) (tx_ok 100)) @
             (if length acc mod 100 = 0 then [] else tx_ok (length acc mod 100))"
proof -
  let ?wstart = "w\<lparr>faults := tl (faults w),
                trace := trace w @ [(OpCount NewsTable, None)],
                logs := logs w @ [LogImportStart p, LogParsed (length cs)],
                files_read := files_read w @ [p]\<rparr>"
  let ?vinit = "\<lparr>newsList = [], importedCount = 0, skippedCount = 0\<rparr>"
  obtain r v w3 where loop: "import_loop env 0 cs ?vinit ?wstart = (r, v, w3)"
    by (metis prod_cases3)
  have top: "(case (r, v, w3) of
        (Some err, v, w3) \<Rightarrow> (Some err, w3)
      | (None, v, w3) \<Rightarrow>
          (case (if length (newsList v) > 0 then batchInsertNews (newsList v) w3
                 else (None, w3)) of
             (Some err, w4) \<Rightarrow> (Some (Wrap ''failed to insert remaining news'' err), w4)
           | (None, w4) \<Rightarrow>
               (None, log_line (LogImportDone (importedCount v) (skippedCount v)) w4)))
      = (None, w')"
    using assms(6) unfolding SeedNewsFromJSON_empty_store [OF assms(1-5)] loop .
  have r: "r = None" using top by (cases r) simp_all
  obtain rb w4 where b: "(if length (newsList v) > 0 then batchInsertNews (newsList v) w3
                          else (None, w3)) = (rb, w4)" by force
  have top2: "(case (rb, w4) of
             (Some err, w4) \<Rightarrow> (Some (Wrap ''failed to insert remaining news'' err), w4)
           | (None, w4) \<Rightarrow>
               (None, log_line (LogImportDone (importedCount v) (skippedCount v)) w4))
      = (None, w')"
    using top unfolding r by (simp only: prod.case option.case b)
  have rb: "rb = None" using top2 by (cases rb) simp_all
  have w': "w' = log_line (LogImportDone (importedCount v) (skippedCount v)) w4"
    using top2 unfolding rb by simp
  have b0: "length (newsList ?vinit) < 100" by simp
  from import_loop_units [OF loop [unfolded r] b0] obtain acc t where
    a: "subseq acc (built_news env 0 cs)"
      "importedCount v = length acc"
      "newsList v = drop (100 * (length acc div 100)) acc"
      "news_tbl w3 = assign_ids (news_seq w) (take (100 * (length acc div 100)) acc)"
      "news_seq w3 = news_seq w + 100 * (length acc div 100)"
      "trace w3 = trace w @ (OpCount NewsTable, None) # t"
      "filter not_lookup t = concat (replicate (length acc div 100) (tx_ok 100))"
    using assms(3) by auto
  let ?k = "100 * (length acc div 100)"
  have ltk: "length (take ?k acc) = ?k" by simp
  have ldr: "length (drop ?k acc) = length acc mod 100"
    by (simp add: minus_mult_div_eq_mod)
  have ids: "assign_ids (news_seq w) (take ?k acc) @ assign_ids (news_seq w + ?k) (drop ?k acc)
               = assign_ids (news_seq w) acc"
    using assign_ids_append [of "news_seq w" "take ?k acc" "drop ?k acc"] ltk by simp
  have fin: "news_tbl w4 = assign_ids (news_seq w) acc \<and>
             (\<exists>t4. trace w4 = trace w3 @ t4 \<and>
                filter not_lookup t4 =
                  (if length acc mod 100 = 0 then [] else tx_ok (length acc mod 100)))"
  proof (cases "length acc mod 100 = 0")
    case True
    then have e: "drop ?k acc = []" using ldr by simp
    then have tk: "take ?k acc = acc" by (metis append_take_drop_id append_Nil2)
    from b e a(3) have "w4 = w3" by simp
    with a(4) tk True show ?thesis by simp
  next
    case False
    then have ne: "drop ?k acc \<noteq> []" using ldr by auto
    with b a(3) rb have bi: "batchInsertNews (drop ?k acc) w3 = (None, w4)" by simp
    from batchInsertNews_spec [OF bi] ne obtain tb where
      tb: "trace w4 = trace w3 @ tb" "list_all not_lookup tb"
        "news_tbl w4 = news_tbl w3 @ assign_ids (news_seq w3) (drop ?k acc)"
        "tb = tx_ok (length (drop ?k acc))" by auto
    have "news_tbl w4 = assign_ids (news_seq w) acc"
      unfolding tb(3) a(4) a(5) ids ..
    moreover have "filter not_lookup tb = tx_ok (length acc mod 100)"
      using tb(2,4) ldr by (simp add: filter_not_lookup_all)
    ultimately show ?thesis using tb(1) False by auto
  qed
  then obtain t4 where t4: "trace w4 = trace w3 @ t4"
    "filter not_lookup t4 = (if length acc mod 100 = 0 then [] else tx_ok (length acc mod 100))"
    by blast
  have tr: "trace w' = trace w @ ((OpCount NewsTable, None) # t @ t4)"
    using t4(1) a(6) by (simp add: w' log_line_fields)
  have nl: "not_lookup (OpCount NewsTable, None)" by (simp add: not_lookup_def)
  have c1: "last (logs w') = LogImportDone (length acc) (skippedCount v)"
    by (simp add: w' log_line_fields a(2))
  have c2: "news_tbl w' = assign_ids (news_seq w) acc"
    using fin by (simp add: w' log_line_fields)
  have c3: "filter not_lookup (new_trace w w') =
             (OpCount NewsTable, None) # concat (replicate (length acc div 100) (tx_ok 100)) @
             (if length acc mod 100 = 0 then [] else tx_ok (length acc mod 100))"
    unfolding new_trace_eq [OF tr] using nl a(7) t4(2) by simp
  show ?thesis
    by (intro exI [of _ acc] exI [of _ "skippedCount v"] conjI a(1) c1 c2 c3)
qed

lemma import_loop_first_lookup_fails:
  assumes "faults w = [Some m]" "news_tbl w = []" "length cs = 100" "newsList v = []"
  shows "import_loop env i (c # cs) v w =
     (None, v\<lparr>importedCount := importedCount v + 100, newsList := []\<rparr>,
      w\<lparr>news_tbl := assign_ids (news_seq w) (built_news env (i + 1) cs),
        news_seq := news_seq w + 100,
        faults := [],
        trace := trace w @ (OpFirst NewsTable, Some m) #
                   replicate 100 (OpFirst NewsTable, None) @ tx_ok 100,
        logs := logs w @ time_warnings env i [c] @
                  LogLookupError (StorageFault m) # time_warnings env (i + 1) cs\<rparr>)"
proof -
  let ?w1 = "warn_time env i c w"
  let ?w2 = "?w1\<lparr>faults := [], trace := trace ?w1 @ [(OpFirst NewsTable, Some m)]\<rparr>"
  let ?w3 = "log_line (LogLookupError (StorageFault m)) ?w2"
  have fn: "first_news (guid c) (link c) ?w1 = (Inl (StorageFault m), ?w2)"
    using assms(1) by (intro first_news_fault) (simp add: warn_time_fields)
  have ne: "StorageFault m \<noteq> ErrRecordNotFound" by simp
  have step: "import_loop env i (c # cs) v w = import_loop env (i + 1) cs v ?w3"
    by (rule import_loop_lookup_error [OF fn ne])
  have f3: "faults ?w3 = []" by (simp add: log_line_fields)
  have fresh: "\<forall>c\<in>set cs. \<forall>r\<in>set (news_tbl ?w3). \<not> duplicate_of c r"
    using assms(2) by (simp add: log_line_fields warn_time_fields)
  have len: "length (newsList v) + length cs = 100" using assms(3,4) by simp
  have ne2: "cs \<noteq> []" using assms(3) by auto
  show ?thesis
    unfolding step import_loop_accept_flush [OF f3 fresh len ne2]
    using assms
    by (simp add: log_line_def warn_time_eq del: time_warnings.simps)
qed

lemma SeedNewsFromJSON_first_lookup_fails:
  assumes "db_connected w" "faults w = [None, Some m]" "news_tbl w = []"
    "ReadFile env p = Inr d" "Unmarshal env d = Inr (c # cs)" "length cs = 100"
  shows "SeedNewsFromJSON env p w =
     (None,
      w\<lparr>news_tbl := assign_ids (news_seq w) (built_news env 1 cs),
        news_seq := news_seq w + 100,
        faults := [],
        trace := trace w @ (OpCount NewsTable, None) # (OpFirst NewsTable, Some m) #
                   replicate 100 (OpFirst NewsTable, None) @ tx_ok 100,
        logs := logs w @ [LogImportStart p, LogParsed 101] @ time_warnings env 0 [c] @
                  LogLookupError (StorageFault m) # time_warnings env 1 cs @
                  [LogImportDone 100 0],
        files_read := files_read w @ [p]\<rparr>)"
proof -
  let ?wstart = "w\<lparr>faults := tl (faults w),
                trace := trace w @ [(OpCount NewsTable, None)],
                logs := logs w @ [LogImportStart p, LogParsed (length (c # cs))],
                files_read := files_read w @ [p]\<rparr>"
  let ?vinit = "\<lparr>newsList = [], importedCount = 0, skippedCount = 0\<rparr>"
  have nr: "next_runs w" using assms(2) by (simp add: next_runs_def)
  have h: "faults ?wstart = [Some m]" "news_tbl ?wstart = []" "newsList ?vinit = []"
    using assms(2,3) by simp_all
  show ?thesis
    unfolding SeedNewsFromJSON_empty_store [OF assms(1) nr assms(3,4,5)]
      import_loop_first_lookup_fails [OF h(1,2) assms(6) h(3)]
    using assms(2,3,6)
    by (simp add: log_line_def del: time_warnings.simps)
qed

text \<open>
  C4. The buffer is flushed when it holds 100 rows, not every hundredth record.

  \<^item> An import of records whose GUIDs and links all differ, into a connected and empty
    store that runs every statement: every record becomes a row; after the count, each
    hundredth lookup is followed by one committed transaction that inserts the 100
    buffered rows (as two statements of 50), and the rows left at the end are inserted by
    a last transaction.
  \<^item> Every import into a connected and empty store that returns no error, whatever the
    records are and whichever lookups fail: with \<open>acc\<close> the rows of the accepted records,
    in order, the table holds \<open>acc\<close>, the log ends with the count of \<open>acc\<close>, and the
    statements other than lookups are the count, one committed transaction of exactly
    100 rows for every full hundred of \<open>acc\<close>, and one transaction for the rest if there
    is one.
  \<^item> Every run of the loop that starts with fewer than 100 buffered rows and returns no
    error ends with fewer than 100 buffered rows: the rows buffered at the start and the
    accepted ones have been inserted, a full hundred at a time, and those after the last
    full hundred are the buffer. Since this holds for the loop on every sequence of
    records, it holds after every record of a run.
\<close>

theorem import_flushes_every_100:
  "(db_connected w \<and> faults w = [] \<and> news_tbl w = [] \<and> ReadFile env p = Inr d \<and>
    Unmarshal env d = Inr cs \<and> distinct (map guid cs) \<and> distinct (map link cs) \<longrightarrow>
      fst (SeedNewsFromJSON env p w) = None \<and>
      news_tbl (snd (SeedNewsFromJSON env p w)) =
        assign_ids (news_seq w) (built_news env 0 cs) \<and>
      length (news_tbl (snd (SeedNewsFromJSON env p w))) = length cs \<and>
      new_trace w (snd (SeedNewsFromJSON env p w)) =
        (OpCount NewsTable, None) #
        concat (replicate (length cs div 100)
                  (replicate 100 (OpFirst NewsTable, None) @ tx_ok 100)) @
        replicate (length cs mod 100) (OpFirst NewsTable, None) @
        (if length cs mod 100 = 0 then [] else tx_ok (length cs mod 100)) \<and>
      last (logs (snd (SeedNewsFromJSON env p w))) = LogImportDone (length cs) 0) \<and>
   (db_connected w \<and> next_runs w \<and> news_tbl w = [] \<and> ReadFile env p = Inr d \<and>
    Unmarshal env d = Inr cs \<and> SeedNewsFromJSON env p w = (None, w') \<longrightarrow>
      (\<exists>acc s. subseq acc (built_news env 0 cs) \<and>
         last (logs w') = LogImportDone (length acc) s \<and>
         news_tbl w' = assign_ids (news_seq w) acc \<and>
         filter not_lookup (new_trace w w') =
           (OpCount NewsTable, None) # concat (replicate (length acc div 100) (tx_ok 100)) @
           (if length acc mod 100 = 0 then [] else tx_ok (length acc mod 100)))) \<and>
   (import_loop env i cs v u = (None, v', u') \<and> length (newsList v) < 100 \<longrightarrow>
      length (newsList v') < 100 \<and>
      (\<exists>acc. subseq acc (built_news env i cs) \<and>
         importedCount v' = importedCount v + length acc \<and>
         newsList v' = drop (100 * ((length (newsList v) + length acc) div 100))
                            (newsList v @ acc) \<and>
         news_tbl u' = news_tbl u @ assign_ids (news_seq u)
            (take (100 * ((length (newsList v) + length acc) div 100)) (newsList v @ acc)) \<and>
         filter not_lookup (new_trace u u') =
           concat (replicate ((length (newsList v) + length acc) div 100) (tx_ok 100))))"
proof (intro conjI impI)
  assume a: "db_connected w \<and> faults w = [] \<and> news_tbl w = [] \<and> ReadFile env p = Inr d \<and>
    Unmarshal env d = Inr cs \<and> distinct (map guid cs) \<and> distinct (map link cs)"
  then have e: "SeedNewsFromJSON env p w =
     (None,
      w\<lparr>news_tbl := assign_ids (news_seq w) (built_news env 0 cs),
        news_seq := news_seq w + length cs,
        trace := trace w @ import_trace (length cs),
        logs := logs w @ [LogImportStart p, LogParsed (length cs)] @ time_warnings env 0 cs @
                  [LogImportDone (length cs) 0],
        files_read := files_read w @ [p]\<rparr>)"
    by (intro SeedNewsFromJSON_accept_all [of w env p d cs]) simp_all
  show "fst (SeedNewsFromJSON env p w) = None"
    unfolding e by simp
  show "news_tbl (snd (SeedNewsFromJSON env p w)) =
        assign_ids (news_seq w) (built_news env 0 cs)"
    unfolding e by simp
  show "length (news_tbl (snd (SeedNewsFromJSON env p w))) = length cs"
    unfolding e by (simp add: length_assign_ids)
  show "new_trace w (snd (SeedNewsFromJSON env p w)) =
        (OpCount NewsTable, None) #
        concat (replicate (length cs div 100)
                  (replicate 100 (OpFirst NewsTable, None) @ tx_ok 100)) @
        replicate (length cs mod 100) (OpFirst NewsTable, None) @
        (if length cs mod 100 = 0 then [] else tx_ok (length cs mod 100))"
    unfolding e by (simp add: new_trace_def import_trace_def)
  show "last (logs (snd (SeedNewsFromJSON env p w))) = LogImportDone (length cs) 0"
    unfolding e by (simp del: time_warnings.simps)
next
  assume a: "db_connected w \<and> next_runs w \<and> news_tbl w = [] \<and> ReadFile env p = Inr d \<and>
    Unmarshal env d = Inr cs \<and> SeedNewsFromJSON env p w = (None, w')"
  then show "\<exists>acc s. subseq acc (built_news env 0 cs) \<and>
         last (logs w') = LogImportDone (length acc) s \<and>
         news_tbl w' = assign_ids (news_seq w) acc \<and>
         filter not_lookup (new_trace w w') =
           (OpCount NewsTable, None) # concat (replicate (length acc div 100) (tx_ok 100)) @
           (if length acc mod 100 = 0 then [] else tx_ok (length acc mod 100))"
    by (intro SeedNewsFromJSON_units [of w env p d cs w']) simp_all
next
  assume a: "import_loop env i cs v u = (None, v', u') \<and> length (newsList v) < 100"
  from import_loop_units [OF conjunct1 [OF a] conjunct2 [OF a]] obtain acc t where
    u: "subseq acc (built_news env i cs)"
      "importedCount v' = importedCount v + length acc"
      "newsList v' = drop (100 * ((length (newsList v) + length acc) div 100))
                              (newsList v @ acc)"
      "news_tbl u' = news_tbl u @ assign_ids (news_seq u)
              (take (100 * ((length (newsList v) + length acc) div 100)) (newsList v @ acc))"
      "trace u' = trace u @ t"
      "filter not_lookup t =
             concat (replicate ((length (newsList v) + length acc) div 100) (tx_ok 100))"
    by blast
  have "length (newsList v') =
          length (newsList v @ acc) - 100 * ((length (newsList v) + length acc) div 100)"
    unfolding u(3) by (simp only: length_drop)
  then have "length (newsList v') = (length (newsList v) + length acc) mod 100"
    by (simp add: minus_mult_div_eq_mod)
  then show "length (newsList v') < 100" by simp
  show "\<exists>acc. subseq acc (built_news env i cs) \<and>
         importedCount v' = importedCount v + length acc \<and>
         newsList v' = drop (100 * ((length (newsList v) + length acc) div 100))
                            (newsList v @ acc) \<and>
         news_tbl u' = news_tbl u @ assign_ids (news_seq u)
            (take (100 * ((length (newsList v) + length acc) div 100)) (newsList v @ acc)) \<and>
         filter not_lookup (new_trace u u') =
           concat (replicate ((length (newsList v) + length acc) div 100) (tx_ok 100))"
    using u(1-4) u(6) unfolding new_trace_eq [OF u(5)]
    by (intro exI [of _ acc] conjI)
qed

lemma distinct_items120: "distinct (map guid items120)" "distinct (map link items120)"
proof -
  have g: "map guid items120 = map (\<lambda>k. replicate (Suc k) (CHR ''g'')) [0..<120]"
    by (simp add: items120_def numbered_item_def item_def)
  have l: "map link items120 = map (\<lambda>k. replicate (Suc k) (CHR ''l'')) [0..<120]"
    by (simp add: items120_def numbered_item_def item_def)
  have inj: "inj_on (\<lambda>k. replicate (Suc k) c) A" for c :: char and A
    by (rule inj_onI) (metis length_replicate nat.inject)
  show "distinct (map guid items120)" unfolding g distinct_map by (intro conjI distinct_upt inj)
  show "distinct (map link items120)" unfolding l distinct_map by (intro conjI distinct_upt inj)
qed

lemma tx_ok_100: "tx_ok 100 =
  [(OpBegin, None), (OpCreate NewsTable 50, None), (OpCreate NewsTable 50, None),
   (OpCommit, None)]"
  by code_simp

lemma tx_ok_20: "tx_ok 20 = [(OpBegin, None), (OpCreate NewsTable 20, None), (OpCommit, None)]"
  by code_simp

lemma items101_Cons: "items101 = numbered_item 0 # map numbered_item [1..<101]"
  by (simp add: items101_def upt_conv_Cons)

text \<open>
  120 records that are all accepted: 120 rows, inserted by a transaction of 100 rows
  after the hundredth lookup and a transaction of 20 rows at the end. 101 records the
  first of which is dropped because its lookup times out: the hundredth accepted record
  is record 101, the one transaction of 100 rows follows its lookup, and nothing is left
  for a last transaction.
\<close>

theorem import_flushes_every_100_witness:
  "length (news_tbl (snd (SeedNewsFromJSON (test_env items120 (\<lambda>k. [])) ''news.json''
                            empty_world))) = 120 \<and>
   new_trace empty_world
       (snd (SeedNewsFromJSON (test_env items120 (\<lambda>k. [])) ''news.json'' empty_world)) =
     (OpCount NewsTable, None) # replicate 100 (OpFirst NewsTable, None) @
     [(OpBegin, None), (OpCreate NewsTable 50, None), (OpCreate NewsTable 50, None),
      (OpCommit, None)] @
     replicate 20 (OpFirst NewsTable, None) @
     [(OpBegin, None), (OpCreate NewsTable 20, None), (OpCommit, None)] \<and>
   length items101 = 101 \<and>
   fst (SeedNewsFromJSON (test_env items101 (\<lambda>k. [])) ''news.json'' timeout_world) = None \<and>
   new_trace timeout_world
       (snd (SeedNewsFromJSON (test_env items101 (\<lambda>k. [])) ''news.json'' timeout_world)) =
     (OpCount NewsTable, None) # (OpFirst NewsTable, Some ''timeout'') #
     replicate 100 (OpFirst NewsTable, None) @
     [(OpBegin, None), (OpCreate NewsTable 50, None), (OpCreate NewsTable 50, None),
      (OpCommit, None)] \<and>
   last (logs (snd (SeedNewsFromJSON (test_env items101 (\<lambda>k. [])) ''news.json''
                      timeout_world))) = LogImportDone 100 0 \<and>
   length (news_tbl (snd (SeedNewsFromJSON (test_env items101 (\<lambda>k. [])) ''news.json''
                            timeout_world))) = 100 \<and>
   filter not_lookup (new_trace timeout_world
       (snd (SeedNewsFromJSON (test_env items101 (\<lambda>k. [])) ''news.json'' timeout_world))) =
     [(OpCount NewsTable, None), (OpBegin, None), (OpCreate NewsTable 50, None),
      (OpCreate NewsTable 50, None), (OpCommit, None)] \<and>
   fst (import_loop (test_env items101 (\<lambda>k. [])) 0 items101 no_vars failing_world) = None \<and>
   newsList (fst (snd (import_loop (test_env items101 (\<lambda>k. [])) 0 items101 no_vars
                         failing_world))) = [] \<and>
   length (news_tbl (snd (snd (import_loop (test_env items101 (\<lambda>k. [])) 0 items101 no_vars
                                 failing_world)))) = 100 \<and>
   filter not_lookup (new_trace failing_world
       (snd (snd (import_loop (test_env items101 (\<lambda>k. [])) 0 items101 no_vars
                    failing_world)))) =
     [(OpBegin, None), (OpCreate NewsTable 50, None), (OpCreate NewsTable 50, None),
      (OpCommit, None)]"
proof -
  let ?E = "test_env items120 (\<lambda>k. [])"
  let ?F = "test_env items101 (\<lambda>k. [])"
  let ?S = "SeedNewsFromJSON ?F ''news.json'' timeout_world"
  let ?L = "import_loop ?F 0 items101 no_vars failing_world"
  have h: "db_connected empty_world \<and> faults empty_world = [] \<and> news_tbl empty_world = [] \<and>
    ReadFile ?E ''news.json'' = Inr ''news.json'' \<and>
    Unmarshal ?E ''news.json'' = Inr items120 \<and>
    distinct (map guid items120) \<and> distinct (map link items120)"
    using distinct_items120 by (simp add: empty_world_def test_env_def)
  have n: "length items120 = 120" by (simp add: items120_def)
  have dm: "(120::nat) div 100 = 1" "(120::nat) mod 100 = 20" by simp_all
  note t = import_flushes_every_100 [THEN conjunct1, rule_format, OF h]
  have t1: "length (news_tbl (snd (SeedNewsFromJSON ?E ''news.json'' empty_world))) = 120"
    using t n by (simp add: length_assign_ids)
  have t2: "new_trace empty_world (snd (SeedNewsFromJSON ?E ''news.json'' empty_world)) =
     (OpCount NewsTable, None) # replicate 100 (OpFirst NewsTable, None) @
     [(OpBegin, None), (OpCreate NewsTable 50, None), (OpCreate NewsTable 50, None),
      (OpCommit, None)] @
     replicate 20 (OpFirst NewsTable, None) @
     [(OpBegin, None), (OpCreate NewsTable 20, None), (OpCommit, None)]"
    using t by (simp add: n dm tx_ok_100 tx_ok_20)
  have n1: "length items101 = 101" by (simp add: items101_def)
  have l100: "length (map numbered_item [1..<101]) = 100" by simp
  have g: "db_connected timeout_world" "faults timeout_world = [None, Some ''timeout'']"
    "news_tbl timeout_world = []" "ReadFile ?F ''news.json'' = Inr ''news.json''"
    "Unmarshal ?F ''news.json'' = Inr (numbered_item 0 # map numbered_item [1..<101])"
    by (simp_all add: timeout_world_def empty_world_def test_env_def items101_Cons)
  note run = SeedNewsFromJSON_first_lookup_fails [OF g l100]
  have s1: "fst ?S = None" unfolding run by simp
  have s2: "new_trace timeout_world (snd ?S) =
     (OpCount NewsTable, None) # (OpFirst NewsTable, Some ''timeout'') #
     replicate 100 (OpFirst NewsTable, None) @
     [(OpBegin, None), (OpCreate NewsTable 50, None), (OpCreate NewsTable 50, None),
      (OpCommit, None)]"
    unfolding run by (simp add: new_trace_def tx_ok_100)
  have s3: "last (logs (snd ?S)) = LogImportDone 100 0"
    unfolding run by (simp del: time_warnings.simps)
  have s0: "?S = (None, snd ?S)" using s1 by (metis prod.collapse)
  have g2: "db_connected timeout_world \<and> next_runs timeout_world \<and>
    news_tbl timeout_world = [] \<and> ReadFile ?F ''news.json'' = Inr ''news.json'' \<and>
    Unmarshal ?F ''news.json'' = Inr items101 \<and> ?S = (None, snd ?S)"
    using s0 by (simp add: timeout_world_def empty_world_def test_env_def next_runs_def)
  from import_flushes_every_100 [THEN conjunct2, THEN conjunct1, rule_format, OF g2]
  obtain acc s where as: "last (logs (snd ?S)) = LogImportDone (length acc) s"
    "news_tbl (snd ?S) = assign_ids (news_seq timeout_world) acc"
    "filter not_lookup (new_trace timeout_world (snd ?S)) =
       (OpCount NewsTable, None) # concat (replicate (length acc div 100) (tx_ok 100)) @
       (if length acc mod 100 = 0 then [] else tx_ok (length acc mod 100))"
    by blast
  have la: "length acc = 100" using as(1) s3 by simp
  have s4: "length (news_tbl (snd ?S)) = 100"
    unfolding as(2) by (simp add: length_assign_ids la)
  have s5: "filter not_lookup (new_trace timeout_world (snd ?S)) =
     [(OpCount NewsTable, None), (OpBegin, None), (OpCreate NewsTable 50, None),
      (OpCreate NewsTable 50, None), (OpCommit, None)]"
    unfolding as(3) la by (simp add: tx_ok_100)
  have k: "faults failing_world = [Some ''timeout'']" "news_tbl failing_world = []"
    "newsList no_vars = []"
    by (simp_all add: failing_world_def empty_world_def no_vars_def)
  note lrun = import_loop_first_lookup_fails [OF k(1,2) l100 k(3), of ?F 0 "numbered_item 0"]
  have lc: "import_loop E 0 items101 no_vars failing_world =
            import_loop E 0 (numbered_item 0 # map numbered_item [1..<101]) no_vars
              failing_world" for E
    by (simp only: items101_Cons)
  have l1: "fst ?L = None" unfolding lc [of ?F] lrun by simp
  have l0: "?L = (None, fst (snd ?L), snd (snd ?L))" using l1 by (metis prod.collapse)
  have k2: "?L = (None, fst (snd ?L), snd (snd ?L)) \<and> length (newsList no_vars) < 100"
    using l0 by (simp add: no_vars_def)
  note lt = import_flushes_every_100 [THEN conjunct2, THEN conjunct2, rule_format, OF k2]
  from lt obtain acc' where al:
    "importedCount (fst (snd ?L)) = importedCount no_vars + length acc'"
    "newsList (fst (snd ?L)) = drop (100 * ((length (newsList no_vars) + length acc') div 100))
                            (newsList no_vars @ acc')"
    "news_tbl (snd (snd ?L)) = news_tbl failing_world @ assign_ids (news_seq failing_world)
        (take (100 * ((length (newsList no_vars) + length acc') div 100))
           (newsList no_vars @ acc'))"
    "filter not_lookup (new_trace failing_world (snd (snd ?L))) =
       concat (replicate ((length (newsList no_vars) + length acc') div 100) (tx_ok 100))"
    by blast
  have ic: "importedCount (fst (snd ?L)) = 100"
    unfolding lc [of ?F] lrun by (simp add: no_vars_def)
  have la': "length acc' = 100" using al(1) ic by (simp add: no_vars_def)
  have l2: "newsList (fst (snd ?L)) = []"
    unfolding al(2) by (simp add: no_vars_def la')
  have l3: "length (news_tbl (snd (snd ?L))) = 100"
    unfolding al(3) by (simp add: no_vars_def la' k(2) length_assign_ids)
  have l4: "filter not_lookup (new_trace failing_world (snd (snd ?L))) =
     [(OpBegin, None), (OpCreate NewsTable 50, None), (OpCreate NewsTable 50, None),
      (OpCommit, None)]"
    unfolding al(4) by (simp add: no_vars_def la' tx_ok_100)
  show ?thesis
    by (intro conjI t1 t2 n1 s1 s2 s3 s4 s5 l1 l2 l3 l4)
qed

text \<open>
  A record that has the GUID or the link of a stored row, looked up by a store that runs
  the lookup: the loop goes on to the next record with the skip counter one higher, the
  import counter and the buffer as they were.
\<close>

lemma import_loop_duplicate:
  assumes "\<exists>r\<in>set (news_tbl w). duplicate_of c r" "next_runs w"
  shows "import_loop env i (c # cs) v w =
           import_loop env (i + 1) cs (v\<lparr>skippedCount := skippedCount v + 1\<rparr>)
             (w\<lparr>faults := tl (faults w),
                trace := trace w @ [(OpFirst NewsTable, None)],
                logs := logs w @ time_warnings env i [c] @ [LogSkipDuplicate (title c)]\<rparr>)"
proof -
  from find_duplicate [OF assms(1)] obtain x where
    x: "find (\<lambda>r. GUID r = guid c \<or> Link r = link c) (news_tbl w) = Some x" by blast
  let ?w1 = "warn_time env i c w"
  have f: "first_news (guid c) (link c) ?w1 =
     (Inr x, ?w1\<lparr>faults := tl (faults ?w1), trace := trace ?w1 @ [(OpFirst NewsTable, None)]\<rparr>)"
    using assms(2) x by (simp add: first_news_runs warn_time_fields)
  have w: "log_line (LogSkipDuplicate (title c))
             (?w1\<lparr>faults := tl (faults ?w1), trace := trace ?w1 @ [(OpFirst NewsTable, None)]\<rparr>)
           = w\<lparr>faults := tl (faults w),
                trace := trace w @ [(OpFirst NewsTable, None)],
                logs := logs w @ time_warnings env i [c] @ [LogSkipDuplicate (title c)]\<rparr>"
    by (simp add: warn_time_eq log_line_def del: time_warnings.simps)
  show ?thesis
    unfolding import_loop_found [OF f] w ..
qed

lemma length_kept_news:
  "length (kept_news env i tbl cs) =
     length (filter (\<lambda>c. \<not> (\<exists>r\<in>set tbl. duplicate_of c r)) cs)"
  by (induction cs arbitrary: i) simp_all

lemma kept_news_fresh:
  "\<forall>r\<in>set (kept_news env i tbl cs). \<forall>s\<in>set tbl. GUID r \<noteq> GUID s \<and> Link r \<noteq> Link s"
  by (induction cs arbitrary: i) (auto simp: duplicate_of_def to_news_def)

lemma duplicate_assign_ids:
  "(\<exists>r\<in>set (assign_ids k rs). duplicate_of c r) = (\<exists>r\<in>set rs. duplicate_of c r)"
  by (induction rs arbitrary: k) (simp_all add: duplicate_of_def)

lemma kept_news_assign_ids:
  "kept_news env i (assign_ids k rs) cs = kept_news env i rs cs"
  by (induction cs arbitrary: i) (simp_all add: duplicate_assign_ids)

lemma import_loop_mixed:
  assumes "faults w = []"
    "length (newsList v) + length (kept_news env i (news_tbl w) ys) < 100"
  shows "\<exists>ll. import_loop env i ys v w =
     (None,
      v\<lparr>newsList := newsList v @ kept_news env i (news_tbl w) ys,
        importedCount := importedCount v + length (kept_news env i (news_tbl w) ys),
        skippedCount := skippedCount v +
          length (filter (\<lambda>c. \<exists>r\<in>set (news_tbl w). duplicate_of c r) ys)\<rparr>,
      w\<lparr>trace := trace w @ replicate (length ys) (OpFirst NewsTable, None),
        logs := logs w @ ll\<rparr>)"
  using assms
proof (induction ys arbitrary: i v w)
  case Nil
  show ?case by (intro exI [of _ "[]"]) simp
next
  case (Cons c ys)
  show ?case
  proof (cases "\<exists>r\<in>set (news_tbl w). duplicate_of c r")
    case True
    let ?v1 = "v\<lparr>skippedCount := skippedCount v + 1\<rparr>"
    let ?w1 = "w\<lparr>faults := tl (faults w),
                trace := trace w @ [(OpFirst NewsTable, None)],
                logs := logs w @ time_warnings env i [c] @ [LogSkipDuplicate (title c)]\<rparr>"
    have step: "import_loop env i (c # ys) v w = import_loop env (i + 1) ys ?v1 ?w1"
      using True next_runs_nofault [OF Cons.prems(1)] by (rule import_loop_duplicate)
    have f1: "faults ?w1 = []" using Cons.prems(1) by simp
    have b1: "length (newsList ?v1) + length (kept_news env (i + 1) (news_tbl ?w1) ys) < 100"
      using Cons.prems(2) True by simp
    from Cons.IH [OF f1 b1] obtain ll where
      ih: "import_loop env (i + 1) ys ?v1 ?w1 =
     (None,
      ?v1\<lparr>newsList := newsList ?v1 @ kept_news env (i + 1) (news_tbl ?w1) ys,
        importedCount := importedCount ?v1 + length (kept_news env (i + 1) (news_tbl ?w1) ys),
        skippedCount := skippedCount ?v1 +
          length (filter (\<lambda>c. \<exists>r\<in>set (news_tbl ?w1). duplicate_of c r) ys)\<rparr>,
      ?w1\<lparr>trace := trace ?w1 @ replicate (length ys) (OpFirst NewsTable, None),
        logs := logs ?w1 @ ll\<rparr>)" by blast
    show ?thesis
      unfolding step ih
      using True Cons.prems(1)
      by (intro exI [of _ "time_warnings env i [c] @ LogSkipDuplicate (title c) # ll"])
         (simp del: time_warnings.simps)
  next
    case False
    let ?w1 = "warn_time env i c w"
    let ?w2 = "?w1\<lparr>trace := trace ?w1 @ [(OpFirst NewsTable, None)]\<rparr>"
    let ?v1 = "v\<lparr>newsList := newsList v @ [to_news c (published_time env i c)],
                  importedCount := importedCount v + 1\<rparr>"
    have fr: "find (\<lambda>r. GUID r = guid c \<or> Link r = link c) (news_tbl ?w1) = None"
      using False by (simp add: find_fresh warn_time_fields)
    have f: "first_news (guid c) (link c) ?w1 = (Inl ErrRecordNotFound, ?w2)"
      using Cons.prems(1) fr by (simp add: first_news_nofault warn_time_fields)
    have small: "length (newsList v) + 1 < 100" using Cons.prems(2) False by simp
    have step: "import_loop env i (c # ys) v w = import_loop env (i + 1) ys ?v1 ?w2"
      by (rule import_loop_buffered [OF f small])
    have f1: "faults ?w2 = []" using Cons.prems(1) by (simp add: warn_time_fields)
    have b1: "length (newsList ?v1) + length (kept_news env (i + 1) (news_tbl ?w2) ys) < 100"
      using Cons.prems(2) False by (simp add: warn_time_fields)
    from Cons.IH [OF f1 b1] obtain ll where
      ih: "import_loop env (i + 1) ys ?v1 ?w2 =
     (None,
      ?v1\<lparr>newsList := newsList ?v1 @ kept_news env (i + 1) (news_tbl ?w2) ys,
        importedCount := importedCount ?v1 + length (kept_news env (i + 1) (news_tbl ?w2) ys),
        skippedCount := skippedCount ?v1 +
          length (filter (\<lambda>c. \<exists>r\<in>set (news_tbl ?w2). duplicate_of c r) ys)\<rparr>,
      ?w2\<lparr>trace := trace ?w2 @ replicate (length ys) (OpFirst NewsTable, None),
        logs := logs ?w2 @ ll\<rparr>)" by blast
    show ?thesis
      unfolding step ih
      using False
      by (intro exI [of _ "time_warnings env i [c] @ ll"])
         (simp add: warn_time_eq del: time_warnings.simps)
  qed
qed

lemma SeedNewsFromJSON_news_exist:
  assumes "db_connected w" "news_tbl w \<noteq> []" "next_runs w"
  shows "SeedNewsFromJSON env path w =
           (None,
            w\<lparr>faults := tl (faults w),
              trace := trace w @ [(OpCount NewsTable, None)],
              logs := logs w @ [LogImportStart path,
                                LogNewsExist (int (length (news_tbl w)))]\<rparr>)"
proof -
  let ?w0 = "log_line (LogImportStart path) w"
  have c: "count_news ?w0 =
     (Inr (int (length (news_tbl ?w0))),
      ?w0\<lparr>faults := tl (faults ?w0), trace := trace ?w0 @ [(OpCount NewsTable, None)]\<rparr>)"
    using assms(3) by (intro count_news_runs) simp
  have pos: "0 < int (length (news_tbl ?w0))"
    using assms(2) by (simp add: log_line_fields)
  show ?thesis
    using assms(1) pos
    by (simp add: SeedNewsFromJSON_def Let_def c log_line_fields)
qed

lemma SeedNewsFromJSON_late_duplicates:
  assumes "db_connected w" "faults w = []" "news_tbl w = []"
    "ReadFile env p = Inr d" "Unmarshal env d = Inr (xs @ ys)"
    "distinct (map guid xs)" "distinct (map link xs)" "length xs mod 100 = 0"
    "length (kept_news env (length xs) (built_news env 0 xs) ys) < 100"
  shows "\<exists>ll. SeedNewsFromJSON env p w =
     (None,
      w\<lparr>news_tbl := assign_ids (news_seq w)
           (built_news env 0 xs @ kept_news env (length xs) (built_news env 0 xs) ys),
        news_seq := news_seq w + length xs +
           length (kept_news env (length xs) (built_news env 0 xs) ys),
        trace := trace w @ (OpCount NewsTable, None) #
           concat (replicate (length xs div 100)
                     (replicate 100 (OpFirst NewsTable, None) @ tx_ok 100)) @
           replicate (length ys) (OpFirst NewsTable, None) @
           (if kept_news env (length xs) (built_news env 0 xs) ys = [] then []
            else tx_ok (length (kept_news env (length xs) (built_news env 0 xs) ys))),
        logs := logs w @ ll @
           [LogImportDone
              (length xs + length (kept_news env (length xs) (built_news env 0 xs) ys))
              (length (filter (\<lambda>c. \<exists>r\<in>set (built_news env 0 xs). duplicate_of c r) ys))],
        files_read := files_read w @ [p]\<rparr>)"
proof -
  let ?n = "length xs"
  let ?bx = "built_news env 0 xs"
  let ?kept = "kept_news env ?n ?bx ys"
  let ?sk = "length (filter (\<lambda>c. \<exists>r\<in>set ?bx. duplicate_of c r) ys)"
  let ?wstart = "w\<lparr>faults := tl (faults w),
                trace := trace w @ [(OpCount NewsTable, None)],
                logs := logs w @ [LogImportStart p, LogParsed (length (xs @ ys))],
                files_read := files_read w @ [p]\<rparr>"
  let ?vinit = "\<lparr>newsList = [], importedCount = 0, skippedCount = 0\<rparr>"
  let ?V1 = "\<lparr>newsList = [], importedCount = ?n, skippedCount = 0\<rparr>"
  let ?W1 = "?wstart\<lparr>news_tbl := assign_ids (news_seq w) ?bx,
        news_seq := news_seq w + ?n,
        trace := trace ?wstart @
          concat (replicate (?n div 100)
                    (replicate 100 (OpFirst NewsTable, None) @ tx_ok 100)),
        logs := logs ?wstart @ time_warnings env 0 xs\<rparr>"
  have kn: "100 * (?n div 100) = ?n" using div_mod_100 [of ?n] assms(8) by simp
  have h: "faults ?wstart = []" "newsList ?vinit = []"
    "distinct (map GUID (news_tbl ?wstart) @ map guid xs)"
    "distinct (map Link (news_tbl ?wstart) @ map link xs)"
    using assms(2,3,6,7) by simp_all
  have loop1: "import_loop env 0 xs ?vinit ?wstart = (None, ?V1, ?W1)"
    unfolding import_loop_accept_all [OF h]
    using assms(2,3,8) by (simp add: kn del: time_warnings.simps)
  have f1: "faults ?W1 = []" using assms(2) by simp
  have b1: "length (newsList ?V1) + length (kept_news env (0 + ?n) (news_tbl ?W1) ys) < 100"
    using assms(9) by (simp add: kept_news_assign_ids)
  from import_loop_mixed [OF f1 b1] obtain ll where
    loop2: "import_loop env (0 + ?n) ys ?V1 ?W1 =
     (None,
      ?V1\<lparr>newsList := newsList ?V1 @ kept_news env (0 + ?n) (news_tbl ?W1) ys,
        importedCount := importedCount ?V1 + length (kept_news env (0 + ?n) (news_tbl ?W1) ys),
        skippedCount := skippedCount ?V1 +
          length (filter (\<lambda>c. \<exists>r\<in>set (news_tbl ?W1). duplicate_of c r) ys)\<rparr>,
      ?W1\<lparr>trace := trace ?W1 @ replicate (length ys) (OpFirst NewsTable, None),
        logs := logs ?W1 @ ll\<rparr>)" by blast
  let ?V2 = "\<lparr>newsList = ?kept, importedCount = ?n + length ?kept, skippedCount = ?sk\<rparr>"
  let ?W2 = "?W1\<lparr>trace := trace ?W1 @ replicate (length ys) (OpFirst NewsTable, None),
        logs := logs ?W1 @ ll\<rparr>"
  have loop2': "import_loop env (0 + ?n) ys ?V1 ?W1 = (None, ?V2, ?W2)"
    unfolding loop2 by (simp add: kept_news_assign_ids duplicate_assign_ids)
  have loop: "import_loop env 0 (xs @ ys) ?vinit ?wstart = (None, ?V2, ?W2)"
    unfolding import_loop_append loop1 by (simp only: prod.case option.case loop2')
  have top: "SeedNewsFromJSON env p w =
     (case (if length (newsList ?V2) > 0 then batchInsertNews (newsList ?V2) ?W2
            else (None, ?W2)) of
        (Some err, w4) \<Rightarrow> (Some (Wrap ''failed to insert remaining news'' err), w4)
      | (None, w4) \<Rightarrow>
          (None, log_line (LogImportDone (importedCount ?V2) (skippedCount ?V2)) w4))"
    unfolding SeedNewsFromJSON_empty_store [OF assms(1) next_runs_nofault [OF assms(2)]
        assms(3,4,5)] loop
    by (simp only: prod.case option.case)
  have nl: "newsList ?V2 = ?kept" by simp
  show ?thesis
  proof (cases "?kept = []")
    case True
    show ?thesis
      unfolding top nl
      by (intro exI [of _ "[LogImportStart p, LogParsed (length (xs @ ys))] @
             time_warnings env 0 xs @ ll"])
         (simp add: True log_line_def assms(2,3) del: time_warnings.simps)
  next
    case False
    have f2: "faults ?W2 = []" using assms(2) by simp
    have b: "batchInsertNews ?kept ?W2 =
      (None, ?W2\<lparr>news_tbl := news_tbl ?W2 @ assign_ids (news_seq ?W2) ?kept,
              news_seq := news_seq ?W2 + length ?kept,
              trace := trace ?W2 @ tx_ok (length ?kept)\<rparr>)"
      by (rule batchInsertNews_nofault [OF f2 False])
    have pos: "0 < length ?kept" using False by simp
    show ?thesis
      unfolding top nl
      apply (simp only: pos if_True b prod.case option.case)
      apply (intro exI [of _ "[LogImportStart p, LogParsed (length (xs @ ys))] @
             time_warnings env 0 xs @ ll"])
      apply (simp add: False log_line_def assms(2,3) assign_ids_append add.assoc
          del: time_warnings.simps)
      done
  qed
qed

lemma SeedNewsFromJSON_duplicate_step:
  assumes "db_connected w" "next_runs w" "news_tbl w = []"
    "ReadFile env p = Inr d" "Unmarshal env d = Inr (pre @ c # post)"
    "import_loop env 0 pre \<lparr>newsList = [], importedCount = 0, skippedCount = 0\<rparr>
       (w\<lparr>faults := tl (faults w),
          trace := trace w @ [(OpCount NewsTable, None)],
          logs := logs w @ [LogImportStart p, LogParsed (length (pre @ c # post))],
          files_read := files_read w @ [p]\<rparr>) = (None, v1, w1)"
    "\<exists>r\<in>set (news_tbl w1). duplicate_of c r" "next_runs w1"
  shows "SeedNewsFromJSON env p w =
     (case import_loop env (length pre + 1) post (v1\<lparr>skippedCount := skippedCount v1 + 1\<rparr>)
             (w1\<lparr>faults := tl (faults w1),
                 trace := trace w1 @ [(OpFirst NewsTable, None)],
                 logs := logs w1 @ time_warnings env (length pre) [c] @
                           [LogSkipDuplicate (title c)]\<rparr>) of
        (Some err, v, w3) \<Rightarrow> (Some err, w3)
      | (None, v, w3) \<Rightarrow>
          (case (if length (newsList v) > 0 then batchInsertNews (newsList v) w3
                 else (None, w3)) of
             (Some err, w4) \<Rightarrow> (Some (Wrap ''failed to insert remaining news'' err), w4)
           | (None, w4) \<Rightarrow>
               (None, log_line (LogImportDone (importedCount v) (skippedCount v)) w4)))"
proof -
  have step: "import_loop env (0 + length pre) (c # post) v1 w1 =
     import_loop env (length pre + 1) post (v1\<lparr>skippedCount := skippedCount v1 + 1\<rparr>)
             (w1\<lparr>faults := tl (faults w1),
                 trace := trace w1 @ [(OpFirst NewsTable, None)],
                 logs := logs w1 @ time_warnings env (length pre) [c] @
                           [LogSkipDuplicate (title c)]\<rparr>)"
    using import_loop_duplicate [OF assms(7,8), of env "length pre" post v1] by simp
  show ?thesis
    unfolding SeedNewsFromJSON_empty_store [OF assms(1-5)] import_loop_append assms(6)
    by (simp only: prod.case option.case step)
qed

lemma duplicate_built_news:
  "(\<exists>r\<in>set (built_news env i xs). duplicate_of c r) =
     (guid c \<in> set (map guid xs) \<or> link c \<in> set (map link xs))"
  by (induction xs arbitrary: i) (auto simp: duplicate_of_def to_news_def)

text \<open>
  C3, as the code has it. The lookup reads the rows that are stored when the record is
  looked up.

  \<^item> A store that holds a news row when the import starts: the import is skipped as a
    whole after the count. No record is looked up, none is counted as skipped, and the
    log has no line with counters.
  \<^item> An import into a connected and empty store that has read the records \<open>pre\<close>
    without an error and reads the record \<open>c\<close> next: if a row that is stored by then has
    the GUID or the link of \<open>c\<close>, and the store runs the lookup, the import goes on with
    the records \<open>post\<close> that follow from the same buffer, the same table and the same
    import counter, with the skip counter one higher. So \<open>c\<close> is in no buffer and no
    flush inserts it.
  \<^item> An import into a connected and empty store that runs every statement, of records
    \<open>xs\<close> followed by records \<open>ys\<close>, where the GUIDs and the links of \<open>xs\<close> all differ
    and \<open>xs\<close> fills whole buffers, so that the rows of \<open>xs\<close> are stored when \<open>ys\<close> is
    read, and fewer than 100 records of \<open>ys\<close> share nothing with a row of \<open>xs\<close>. The
    records of \<open>ys\<close> that have the GUID or the link of a row of \<open>xs\<close> are not stored:
    the table holds the rows of \<open>xs\<close> and then the rows of the other records of \<open>ys\<close>,
    none of which has a GUID or a link of \<open>xs\<close>. The counters logged at the end are the
    number of these rows and the number of the duplicates in \<open>ys\<close>, each counted once.
    Every record of \<open>ys\<close> is looked up once and the other records of \<open>ys\<close> are
    inserted by the last transaction.
\<close>

theorem duplicate_is_skipped:
  "(db_connected w \<and> next_runs w \<and> news_tbl w \<noteq> [] \<longrightarrow>
      fst (SeedNewsFromJSON env p w) = None \<and>
      news_tbl (snd (SeedNewsFromJSON env p w)) = news_tbl w \<and>
      new_trace w (snd (SeedNewsFromJSON env p w)) = [(OpCount NewsTable, None)] \<and>
      new_logs w (snd (SeedNewsFromJSON env p w)) =
        [LogImportStart p, LogNewsExist (int (length (news_tbl w)))]) \<and>
   (db_connected w \<and> next_runs w \<and> news_tbl w = [] \<and> ReadFile env p = Inr d \<and>
    Unmarshal env d = Inr (pre @ c # post) \<and>
    import_loop env 0 pre \<lparr>newsList = [], importedCount = 0, skippedCount = 0\<rparr>
      (w\<lparr>faults := tl (faults w),
         trace := trace w @ [(OpCount NewsTable, None)],
         logs := logs w @ [LogImportStart p, LogParsed (length (pre @ c # post))],
         files_read := files_read w @ [p]\<rparr>) = (None, v1, w1) \<and>
    (\<exists>r\<in>set (news_tbl w1). duplicate_of c r) \<and> next_runs w1 \<longrightarrow>
      SeedNewsFromJSON env p w =
        (case import_loop env (length pre + 1) post
                (v1\<lparr>skippedCount := skippedCount v1 + 1\<rparr>)
                (w1\<lparr>faults := tl (faults w1),
                    trace := trace w1 @ [(OpFirst NewsTable, None)],
                    logs := logs w1 @ time_warnings env (length pre) [c] @
                              [LogSkipDuplicate (title c)]\<rparr>) of
           (Some err, v, w3) \<Rightarrow> (Some err, w3)
         | (None, v, w3) \<Rightarrow>
             (case (if length (newsList v) > 0 then batchInsertNews (newsList v) w3
                    else (None, w3)) of
                (Some err, w4) \<Rightarrow> (Some (Wrap ''failed to insert remaining news'' err), w4)
              | (None, w4) \<Rightarrow>
                  (None, log_line (LogImportDone (importedCount v) (skippedCount v)) w4)))) \<and>
   (db_connected w \<and> faults w = [] \<and> news_tbl w = [] \<and> ReadFile env p = Inr d \<and>
    Unmarshal env d = Inr (xs @ ys) \<and> distinct (map guid xs) \<and> distinct (map link xs) \<and>
    length xs mod 100 = 0 \<and>
    length (filter (\<lambda>c. \<not> (\<exists>r\<in>set (built_news env 0 xs). duplicate_of c r)) ys) < 100 \<longrightarrow>
      fst (SeedNewsFromJSON env p w) = None \<and>
      news_tbl (snd (SeedNewsFromJSON env p w)) =
        assign_ids (news_seq w)
          (built_news env 0 xs @ kept_news env (length xs) (built_news env 0 xs) ys) \<and>
      (\<forall>r\<in>set (kept_news env (length xs) (built_news env 0 xs) ys).
         \<forall>s\<in>set (built_news env 0 xs). GUID r \<noteq> GUID s \<and> Link r \<noteq> Link s) \<and>
      length (news_tbl (snd (SeedNewsFromJSON env p w))) =
        length xs +
        length (filter (\<lambda>c. \<not> (\<exists>r\<in>set (built_news env 0 xs). duplicate_of c r)) ys) \<and>
      last (logs (snd (SeedNewsFromJSON env p w))) =
        LogImportDone
          (length xs +
           length (filter (\<lambda>c. \<not> (\<exists>r\<in>set (built_news env 0 xs). duplicate_of c r)) ys))
          (length (filter (\<lambda>c. \<exists>r\<in>set (built_news env 0 xs). duplicate_of c r) ys)) \<and>
      new_trace w (snd (SeedNewsFromJSON env p w)) =
        (OpCount NewsTable, None) #
        concat (replicate (length xs div 100)
                  (replicate 100 (OpFirst NewsTable, None) @ tx_ok 100)) @
        replicate (length ys) (OpFirst NewsTable, None) @
        (if filter (\<lambda>c. \<not> (\<exists>r\<in>set (built_news env 0 xs). duplicate_of c r)) ys = []
         then []
         else tx_ok (length (filter
                 (\<lambda>c. \<not> (\<exists>r\<in>set (built_news env 0 xs). duplicate_of c r)) ys))))"
proof (intro conjI impI)
  assume a: "db_connected w \<and> next_runs w \<and> news_tbl w \<noteq> []"
  then have e: "SeedNewsFromJSON env p w =
           (None,
            w\<lparr>faults := tl (faults w),
              trace := trace w @ [(OpCount NewsTable, None)],
              logs := logs w @ [LogImportStart p,
                                LogNewsExist (int (length (news_tbl w)))]\<rparr>)"
    by (intro SeedNewsFromJSON_news_exist) simp_all
  show "fst (SeedNewsFromJSON env p w) = None" unfolding e by simp
  show "news_tbl (snd (SeedNewsFromJSON env p w)) = news_tbl w" unfolding e by simp
  show "new_trace w (snd (SeedNewsFromJSON env p w)) = [(OpCount NewsTable, None)]"
    unfolding e by (simp add: new_trace_def)
  show "new_logs w (snd (SeedNewsFromJSON env p w)) =
        [LogImportStart p, LogNewsExist (int (length (news_tbl w)))]"
    unfolding e by (simp add: new_logs_def)
next
  assume a: "db_connected w \<and> next_runs w \<and> news_tbl w = [] \<and> ReadFile env p = Inr d \<and>
    Unmarshal env d = Inr (pre @ c # post) \<and>
    import_loop env 0 pre \<lparr>newsList = [], importedCount = 0, skippedCount = 0\<rparr>
      (w\<lparr>faults := tl (faults w),
         trace := trace w @ [(OpCount NewsTable, None)],
         logs := logs w @ [LogImportStart p, LogParsed (length (pre @ c # post))],
         files_read := files_read w @ [p]\<rparr>) = (None, v1, w1) \<and>
    (\<exists>r\<in>set (news_tbl w1). duplicate_of c r) \<and> next_runs w1"
  then have a': "db_connected w" "next_runs w" "news_tbl w = []" "ReadFile env p = Inr d"
    "Unmarshal env d = Inr (pre @ c # post)"
    "import_loop env 0 pre \<lparr>newsList = [], importedCount = 0, skippedCount = 0\<rparr>
      (w\<lparr>faults := tl (faults w),
         trace := trace w @ [(OpCount NewsTable, None)],
         logs := logs w @ [LogImportStart p, LogParsed (length (pre @ c # post))],
         files_read := files_read w @ [p]\<rparr>) = (None, v1, w1)"
    "\<exists>r\<in>set (news_tbl w1). duplicate_of c r" "next_runs w1"
    by blast+
  show "SeedNewsFromJSON env p w =
        (case import_loop env (length pre + 1) post
                (v1\<lparr>skippedCount := skippedCount v1 + 1\<rparr>)
                (w1\<lparr>faults := tl (faults w1),
                    trace := trace w1 @ [(OpFirst NewsTable, None)],
                    logs := logs w1 @ time_warnings env (length pre) [c] @
                              [LogSkipDuplicate (title c)]\<rparr>) of
           (Some err, v, w3) \<Rightarrow> (Some err, w3)
         | (None, v, w3) \<Rightarrow>
             (case (if length (newsList v) > 0 then batchInsertNews (newsList v) w3
                    else (None, w3)) of
                (Some err, w4) \<Rightarrow> (Some (Wrap ''failed to insert remaining news'' err), w4)
              | (None, w4) \<Rightarrow>
                  (None, log_line (LogImportDone (importedCount v) (skippedCount v)) w4)))"
    by (rule SeedNewsFromJSON_duplicate_step [OF a'])
next
  let ?bx = "built_news env 0 xs"
  let ?kept = "kept_news env (length xs) ?bx ys"
  let ?fresh = "filter (\<lambda>c. \<not> (\<exists>r\<in>set ?bx. duplicate_of c r)) ys"
  assume a: "db_connected w \<and> faults w = [] \<and> news_tbl w = [] \<and> ReadFile env p = Inr d \<and>
    Unmarshal env d = Inr (xs @ ys) \<and> distinct (map guid xs) \<and> distinct (map link xs) \<and>
    length xs mod 100 = 0 \<and> length ?fresh < 100"
  have lk: "length ?kept = length ?fresh" by (rule length_kept_news)
  have ke: "(?kept = []) = (?fresh = [])"
    using lk by (metis length_0_conv)
  from a have b: "length ?kept < 100" by (simp add: lk)
  from a have a': "db_connected w" "faults w = []" "news_tbl w = []" "ReadFile env p = Inr d"
    "Unmarshal env d = Inr (xs @ ys)" "distinct (map guid xs)" "distinct (map link xs)"
    "length xs mod 100 = 0" by simp_all
  from SeedNewsFromJSON_late_duplicates [OF a' b] obtain ll where
    e: "SeedNewsFromJSON env p w =
     (None,
      w\<lparr>news_tbl := assign_ids (news_seq w) (?bx @ ?kept),
        news_seq := news_seq w + length xs + length ?kept,
        trace := trace w @ (OpCount NewsTable, None) #
           concat (replicate (length xs div 100)
                     (replicate 100 (OpFirst NewsTable, None) @ tx_ok 100)) @
           replicate (length ys) (OpFirst NewsTable, None) @
           (if ?kept = [] then [] else tx_ok (length ?kept)),
        logs := logs w @ ll @
           [LogImportDone (length xs + length ?kept)
              (length (filter (\<lambda>c. \<exists>r\<in>set ?bx. duplicate_of c r) ys))],
        files_read := files_read w @ [p]\<rparr>)" ..
  show "fst (SeedNewsFromJSON env p w) = None" unfolding e by simp
  show "news_tbl (snd (SeedNewsFromJSON env p w)) = assign_ids (news_seq w) (?bx @ ?kept)"
    unfolding e by simp
  show "\<forall>r\<in>set ?kept. \<forall>s\<in>set ?bx. GUID r \<noteq> GUID s \<and> Link r \<noteq> Link s"
    by (rule kept_news_fresh)
  show "length (news_tbl (snd (SeedNewsFromJSON env p w))) = length xs + length ?fresh"
    unfolding e by (simp add: length_assign_ids lk)
  show "last (logs (snd (SeedNewsFromJSON env p w))) =
        LogImportDone (length xs + length ?fresh)
          (length (filter (\<lambda>c. \<exists>r\<in>set ?bx. duplicate_of c r) ys))"
    unfolding e by (simp add: lk)
  show "new_trace w (snd (SeedNewsFromJSON env p w)) =
        (OpCount NewsTable, None) #
        concat (replicate (length xs div 100)
                  (replicate 100 (OpFirst NewsTable, None) @ tx_ok 100)) @
        replicate (length ys) (OpFirst NewsTable, None) @
        (if ?fresh = [] then [] else tx_ok (length ?fresh))"
    unfolding e by (simp add: new_trace_def lk ke)
qed

lemma numbered_keys:
  "map guid (map numbered_item ks) = map (\<lambda>k. replicate (Suc k) (CHR ''g'')) ks"
  "map link (map numbered_item ks) = map (\<lambda>k. replicate (Suc k) (CHR ''l'')) ks"
  by (simp_all add: numbered_item_def item_def)

lemma distinct_numbered:
  "distinct (map guid (map numbered_item [0..<n]))"
  "distinct (map link (map numbered_item [0..<n]))"
proof -
  have inj: "inj_on (\<lambda>k. replicate (Suc k) c) A" for c :: char and A
    by (rule inj_onI) (metis length_replicate nat.inject)
  show "distinct (map guid (map numbered_item [0..<n]))"
    unfolding numbered_keys distinct_map by (intro conjI distinct_upt inj)
  show "distinct (map link (map numbered_item [0..<n]))"
    unfolding numbered_keys distinct_map by (intro conjI distinct_upt inj)
qed

lemma numbered_mem:
  "k < 100 \<Longrightarrow> replicate (Suc k) (CHR ''g'') \<in> set (map guid items100)"
  "k < 100 \<Longrightarrow> replicate (Suc k) (CHR ''l'') \<in> set (map link items100)"
  unfolding items100_def numbered_keys by simp_all

lemma tx_ok_1:
  "tx_ok (Suc 0) = [(OpBegin, None), (OpCreate NewsTable (Suc 0), None), (OpCommit, None)]"
  by code_simp

lemma late_items_duplicates:
  "filter (\<lambda>c. \<exists>r\<in>set (built_news env 0 items100). duplicate_of c r) late_items =
     [item ''g'' ''http://x'', item ''y'' ''ll'']"
  "filter (\<lambda>c. \<not> (\<exists>r\<in>set (built_news env 0 items100). duplicate_of c r)) late_items =
     [item ''z'' ''http://z'']"
proof -
  have g: "''g'' \<in> set (map guid items100)"
    using numbered_mem(1) [of 0] by simp
  have l: "''ll'' \<in> set (map link items100)"
    using numbered_mem(2) [of 1] by (simp add: numeral_2_eq_2)
  have n: "''y'' \<notin> set (map guid items100)" "''z'' \<notin> set (map guid items100)"
    "''http://x'' \<notin> set (map link items100)" "''http://z'' \<notin> set (map link items100)"
    unfolding items100_def numbered_keys by (auto simp: image_iff)
  have k: "guid (item a b) = a" "link (item a b) = b" for a b
    by (simp_all add: item_def)
  show "filter (\<lambda>c. \<exists>r\<in>set (built_news env 0 items100). duplicate_of c r) late_items =
     [item ''g'' ''http://x'', item ''y'' ''ll'']"
    unfolding duplicate_built_news late_items_def using g l n by (simp add: k)
  show "filter (\<lambda>c. \<not> (\<exists>r\<in>set (built_news env 0 items100). duplicate_of c r)) late_items =
     [item ''z'' ''http://z'']"
    unfolding duplicate_built_news late_items_def using g l n by (simp add: k)
qed

text \<open>
  A store with one row: the import is skipped. 100 records followed by one with the GUID
  of the first: 100 imported, 1 skipped, 100 rows. 100 records followed by one with the
  GUID of the first, one with the link of the second and one that shares nothing with
  them: 101 imported, 2 skipped, 101 rows, the last of which has the GUID z.
\<close>

theorem duplicate_is_skipped_witness:
  "db_connected g1_world \<and> next_runs g1_world \<and> news_tbl g1_world \<noteq> [] \<and>
   new_logs g1_world
       (snd (SeedNewsFromJSON (test_env [item ''g1'' ''http://b''] (\<lambda>k. [])) ''news.json''
               g1_world)) = [LogImportStart ''news.json'', LogNewsExist 1] \<and>
   last (logs (snd (SeedNewsFromJSON (test_env (items100 @ [item ''g'' ''http://x''])
                                        (\<lambda>k. [])) ''news.json'' empty_world))) =
     LogImportDone 100 1 \<and>
   length (news_tbl (snd (SeedNewsFromJSON (test_env (items100 @ [item ''g'' ''http://x''])
                                              (\<lambda>k. [])) ''news.json'' empty_world))) = 100 \<and>
   length items100 mod 100 = 0 \<and>
   filter (\<lambda>c. \<exists>r\<in>set (built_news (test_env (items100 @ late_items) (\<lambda>k. [])) 0 items100).
                 duplicate_of c r) late_items =
     [item ''g'' ''http://x'', item ''y'' ''ll''] \<and>
   fst (SeedNewsFromJSON (test_env (items100 @ late_items) (\<lambda>k. [])) ''news.json''
          empty_world) = None \<and>
   last (logs (snd (SeedNewsFromJSON (test_env (items100 @ late_items) (\<lambda>k. [])) ''news.json''
                      empty_world))) = LogImportDone 101 2 \<and>
   length (news_tbl (snd (SeedNewsFromJSON (test_env (items100 @ late_items) (\<lambda>k. []))
                            ''news.json'' empty_world))) = 101 \<and>
   map GUID (drop 100 (news_tbl (snd (SeedNewsFromJSON
       (test_env (items100 @ late_items) (\<lambda>k. [])) ''news.json'' empty_world)))) = [''z''] \<and>
   new_trace empty_world
       (snd (SeedNewsFromJSON (test_env (items100 @ late_items) (\<lambda>k. [])) ''news.json''
               empty_world)) =
     (OpCount NewsTable, None) # replicate 100 (OpFirst NewsTable, None) @
     [(OpBegin, None), (OpCreate NewsTable 50, None), (OpCreate NewsTable 50, None),
      (OpCommit, None)] @
     replicate 3 (OpFirst NewsTable, None) @
     [(OpBegin, None), (OpCreate NewsTable 1, None), (OpCommit, None)]"
proof -
  let ?E = "test_env (items100 @ late_items) (\<lambda>k. [])"
  let ?S = "SeedNewsFromJSON ?E ''news.json'' empty_world"
  let ?G = "SeedNewsFromJSON (test_env [item ''g1'' ''http://b''] (\<lambda>k. [])) ''news.json''
              g1_world"
  have h: "db_connected g1_world \<and> next_runs g1_world \<and> news_tbl g1_world \<noteq> []"
    by (simp add: g1_world_def empty_world_def next_runs_def)
  have lg: "int (length (news_tbl g1_world)) = 1"
    by (simp add: g1_world_def empty_world_def)
  have a: "new_logs g1_world (snd ?G) = [LogImportStart ''news.json'', LogNewsExist 1]"
    using duplicate_is_skipped [THEN conjunct1, rule_format, OF h,
        of "test_env [item ''g1'' ''http://b''] (\<lambda>k. [])" "''news.json''"]
    by (simp add: lg)
  have n: "length items100 = 100" by (simp add: items100_def)
  have m: "length items100 mod 100 = 0" by (simp add: n)
  have nl: "length late_items = 3" by (simp add: late_items_def)
  let ?c = "item ''g'' ''http://x''"
  let ?F = "test_env (items100 @ [?c]) (\<lambda>k. [])"
  let ?T = "SeedNewsFromJSON ?F ''news.json'' empty_world"
  let ?vinit = "\<lparr>newsList = [], importedCount = 0, skippedCount = 0\<rparr>"
  let ?W0 = "empty_world\<lparr>faults := tl (faults empty_world),
          trace := trace empty_world @ [(OpCount NewsTable, None)],
          logs := logs empty_world @ [LogImportStart ''news.json'',
                    LogParsed (length (items100 @ ?c # []))],
          files_read := files_read empty_world @ [''news.json'']\<rparr>"
  let ?v1 = "?vinit\<lparr>importedCount := importedCount ?vinit + length items100, newsList := []\<rparr>"
  let ?w1 = "?W0\<lparr>news_tbl := news_tbl ?W0 @
           assign_ids (news_seq ?W0) (newsList ?vinit @ built_news ?F 0 items100),
        news_seq := news_seq ?W0 + 100,
        trace := trace ?W0 @ replicate (length items100) (OpFirst NewsTable, None) @ tx_ok 100,
        logs := logs ?W0 @ time_warnings ?F 0 items100\<rparr>"
  have ne: "items100 \<noteq> []" using n by auto
  have f0: "faults ?W0 = []" by (simp add: empty_world_def)
  have fresh: "\<forall>c\<in>set items100. \<forall>r\<in>set (news_tbl ?W0). \<not> duplicate_of c r"
    by (simp add: empty_world_def)
  have len: "length (newsList ?vinit) + length items100 = 100" using n by simp
  note loop = import_loop_accept_flush [OF f0 fresh len ne, of ?F 0]
  have gm: "guid ?c \<in> set (map guid items100)"
    using numbered_mem(1) [of 0] by (simp add: item_def)
  have dup: "\<exists>r\<in>set (news_tbl ?w1). duplicate_of ?c r"
    using gm by (simp add: empty_world_def duplicate_assign_ids duplicate_built_news)
  have p: "db_connected empty_world \<and> next_runs empty_world \<and> news_tbl empty_world = [] \<and>
    ReadFile ?F ''news.json'' = Inr ''news.json'' \<and>
    Unmarshal ?F ''news.json'' = Inr (items100 @ ?c # []) \<and>
    import_loop ?F 0 items100 ?vinit ?W0 = (None, ?v1, ?w1) \<and>
    (\<exists>r\<in>set (news_tbl ?w1). duplicate_of ?c r) \<and> next_runs ?w1"
    using loop dup by (simp add: empty_world_def test_env_def next_runs_def)
  note s = duplicate_is_skipped [THEN conjunct2, THEN conjunct1, rule_format, OF p]
  have s1: "last (logs (snd ?T)) = LogImportDone 100 1"
    unfolding s by (simp add: n log_line_fields)
  have s2: "length (news_tbl (snd ?T)) = 100"
    unfolding s by (simp add: n log_line_fields empty_world_def length_assign_ids)
  note d = late_items_duplicates [of ?E]
  have k1: "db_connected empty_world" "faults empty_world = []" "news_tbl empty_world = []"
    "ReadFile ?E ''news.json'' = Inr ''news.json''"
    "Unmarshal ?E ''news.json'' = Inr (items100 @ late_items)"
    by (simp_all add: empty_world_def test_env_def)
  have k2: "distinct (map guid items100)" "distinct (map link items100)"
    using distinct_numbered [of 100] by (simp_all only: items100_def)
  have k3: "length (filter (\<lambda>c. \<not> (\<exists>r\<in>set (built_news ?E 0 items100). duplicate_of c r))
              late_items) < 100"
    unfolding d(2) by simp
  have k: "db_connected empty_world \<and> faults empty_world = [] \<and> news_tbl empty_world = [] \<and>
    ReadFile ?E ''news.json'' = Inr ''news.json'' \<and>
    Unmarshal ?E ''news.json'' = Inr (items100 @ late_items) \<and>
    distinct (map guid items100) \<and> distinct (map link items100) \<and>
    length items100 mod 100 = 0 \<and>
    length (filter (\<lambda>c. \<not> (\<exists>r\<in>set (built_news ?E 0 items100). duplicate_of c r))
              late_items) < 100"
    by (intro conjI k1 k2 m k3)
  note t = duplicate_is_skipped [THEN conjunct2, THEN conjunct2, rule_format, OF k]
  have dm: "(100::nat) div 100 = 1" by simp
  have kp: "kept_news ?E 100 (built_news ?E 0 items100) late_items =
              [to_news (item ''z'' ''http://z'') (published_time ?E 102 (item ''z'' ''http://z''))]"
  proof -
    have g: "''g'' \<in> set (map guid items100)"
      using numbered_mem(1) [of 0] by simp
    have l: "''ll'' \<in> set (map link items100)"
      using numbered_mem(2) [of 1] by (simp add: numeral_2_eq_2)
    have nn: "''y'' \<notin> set (map guid items100)" "''z'' \<notin> set (map guid items100)"
      "''http://x'' \<notin> set (map link items100)" "''http://z'' \<notin> set (map link items100)"
      unfolding items100_def numbered_keys by (auto simp: image_iff)
    have kk: "guid (item a b) = a" "link (item a b) = b" for a b
      by (simp_all add: item_def)
    show ?thesis
      unfolding late_items_def using g l nn
      by (simp add: duplicate_built_news kk)
  qed
  note t' = t [unfolded d n nl kp]
  note c1 = t' [THEN conjunct1]
  note c2 = t' [THEN conjunct2, THEN conjunct1]
  note c4 = t' [THEN conjunct2, THEN conjunct2, THEN conjunct2, THEN conjunct1]
  note c5 = t' [THEN conjunct2, THEN conjunct2, THEN conjunct2, THEN conjunct2, THEN conjunct1]
  note c6 = t' [THEN conjunct2, THEN conjunct2, THEN conjunct2, THEN conjunct2, THEN conjunct2]
  have b1: "fst ?S = None" by (rule c1)
  have b2: "last (logs (snd ?S)) = LogImportDone 101 2"
    using c5 by simp
  have b3: "length (news_tbl (snd ?S)) = 101"
    using c4 by simp
  have b4: "map GUID (drop 100 (news_tbl (snd ?S))) = [''z'']"
    unfolding c2 by (simp add: n assign_ids_append length_assign_ids to_news_def item_def)
  have b5: "new_trace empty_world (snd ?S) =
     (OpCount NewsTable, None) # replicate 100 (OpFirst NewsTable, None) @
     [(OpBegin, None), (OpCreate NewsTable 50, None), (OpCreate NewsTable 50, None),
      (OpCommit, None)] @
     replicate 3 (OpFirst NewsTable, None) @
     [(OpBegin, None), (OpCreate NewsTable 1, None), (OpCommit, None)]"
    using c6 by (simp add: dm tx_ok_100 tx_ok_1)
  show ?thesis
    using h by (intro conjI a s1 s2 m d(1) b1 b2 b3 b4 b5) simp_all
qed

text \<open>
  The record has the GUID of the row that is stored when the import starts. The import
  returns after the count: the record is not looked up, no duplicate is logged and there
  are no counters, so the record is not counted as skipped.
\<close>

theorem stored_duplicate_counterexample:
  "(\<exists>r\<in>set (news_tbl g1_world). duplicate_of (item ''g1'' ''http://b'') r) \<and>
   SeedNewsFromJSON (test_env [item ''g1'' ''http://b''] (\<lambda>k. [])) ''news.json'' g1_world =
     (None, g1_world\<lparr>faults := [], trace := [(OpCount NewsTable, None)],
                     logs := [LogImportStart ''news.json'', LogNewsExist 1]\<rparr>) \<and>
   LogSkipDuplicate (title (item ''g1'' ''http://b'')) \<notin>
     set (logs (snd (SeedNewsFromJSON (test_env [item ''g1'' ''http://b''] (\<lambda>k. []))
                       ''news.json'' g1_world))) \<and>
   (\<forall>a. LogImportDone a 1 \<notin>
     set (logs (snd (SeedNewsFromJSON (test_env [item ''g1'' ''http://b''] (\<lambda>k. []))
                       ''news.json'' g1_world))))"
proof -
  have d: "\<exists>r\<in>set (news_tbl g1_world). duplicate_of (item ''g1'' ''http://b'') r"
    by (simp add: g1_world_def empty_world_def duplicate_of_def to_news_def item_def)
  have h: "db_connected g1_world" "news_tbl g1_world \<noteq> []" "next_runs g1_world"
    by (simp_all add: g1_world_def empty_world_def next_runs_def)
  have f: "faults g1_world = []" "trace g1_world = []" "logs g1_world = []"
    "length (news_tbl g1_world) = 1"
    by (simp_all add: g1_world_def empty_world_def)
  have e: "SeedNewsFromJSON (test_env [item ''g1'' ''http://b''] (\<lambda>k. [])) ''news.json''
             g1_world =
     (None, g1_world\<lparr>faults := [], trace := [(OpCount NewsTable, None)],
                     logs := [LogImportStart ''news.json'', LogNewsExist 1]\<rparr>)"
    unfolding SeedNewsFromJSON_news_exist [OF h] by (simp add: f)
  show ?thesis
    unfolding e using d by simp
qed

lemma lookup_errors_Cons:
  "lookup_errors (e # xs) = (if is_lookup_error e then 1 else 0) + lookup_errors xs"
  by (simp add: lookup_errors_def)

lemma SeedNewsFromJSON_counts:
  assumes "db_connected w" "next_runs w" "news_tbl w = []"
    "ReadFile env p = Inr d" "Unmarshal env d = Inr cs"
    "SeedNewsFromJSON env p w = (None, w')"
  shows "\<exists>a b. last (logs w') = LogImportDone a b \<and>
           a + b + lookup_errors (new_logs w w') = length cs"
proof -
  let ?wstart = "w\<lparr>faults := tl (faults w),
                trace := trace w @ [(OpCount NewsTable, None)],
                logs := logs w @ [LogImportStart p, LogParsed (length cs)],
                files_read := files_read w @ [p]\<rparr>"
  let ?vinit = "\<lparr>newsList = [], importedCount = 0, skippedCount = 0\<rparr>"
  obtain r v w3 where loop: "import_loop env 0 cs ?vinit ?wstart = (r, v, w3)"
    by (metis prod_cases3)
  have top: "(case (r, v, w3) of
        (Some err, v, w3) \<Rightarrow> (Some err, w3)
      | (None, v, w3) \<Rightarrow>
          (case (if length (newsList v) > 0 then batchInsertNews (newsList v) w3
                 else (None, w3)) of
             (Some err, w4) \<Rightarrow> (Some (Wrap ''failed to insert remaining news'' err), w4)
           | (None, w4) \<Rightarrow>
               (None, log_line (LogImportDone (importedCount v) (skippedCount v)) w4)))
      = (None, w')"
    using assms(6) unfolding SeedNewsFromJSON_empty_store [OF assms(1-5)] loop .
  have r: "r = None" using top by (cases r) simp_all
  obtain rb w4 where b: "(if length (newsList v) > 0 then batchInsertNews (newsList v) w3
                          else (None, w3)) = (rb, w4)" by force
  have top2: "(case (rb, w4) of
             (Some err, w4) \<Rightarrow> (Some (Wrap ''failed to insert remaining news'' err), w4)
           | (None, w4) \<Rightarrow>
               (None, log_line (LogImportDone (importedCount v) (skippedCount v)) w4))
      = (None, w')"
    using top unfolding r by (simp only: prod.case option.case b)
  have rb: "rb = None" using top2 by (cases rb) simp_all
  have w': "w' = log_line (LogImportDone (importedCount v) (skippedCount v)) w4"
    using top2 unfolding rb by simp
  have l4: "logs w4 = logs w3"
  proof (cases "length (newsList v) > 0")
    case True
    with b have "batchInsertNews (newsList v) w3 = (rb, w4)" by simp
    from batchInsertNews_spec [OF this] show ?thesis by auto
  next
    case False
    with b show ?thesis by simp
  qed
  from import_loop_counts [OF loop] r obtain ll where
    ll: "logs w3 = logs ?wstart @ ll"
    "importedCount v + skippedCount v + lookup_errors ll = length cs" by auto
  have lg: "logs w' = logs w @ [LogImportStart p, LogParsed (length cs)] @ ll @
              [LogImportDone (importedCount v) (skippedCount v)]"
    using ll(1) l4 by (simp add: w' log_line_fields)
  have "last (logs w') = LogImportDone (importedCount v) (skippedCount v)"
    unfolding lg by simp
  moreover have "lookup_errors (new_logs w w') = lookup_errors ll"
    unfolding new_logs_eq [OF lg]
    by (simp add: lookup_errors_Cons is_lookup_error_def)
  ultimately show ?thesis using ll(2) by simp
qed

text \<open>
  C10. A record whose lookup fails with a storage error: the loop goes on to the next
  record with both counters and the buffer as they were; the store differs only by the
  failed lookup in its trace and the error in its log. In a loop that runs to its end,
  the two counters and the number of logged lookup errors add up to the number of
  records, so the counters add up to that number exactly when no lookup failed. The same
  holds for the counters that \<^verbatim>\<open>SeedNewsFromJSON\<close> logs at the end of an import.
\<close>

theorem lookup_error_drops_record:
  "(faults w = Some m # fs \<longrightarrow>
      import_loop env i (c # cs) v w =
        import_loop env (i + 1) cs v
          (w\<lparr>faults := fs,
             trace := trace w @ [(OpFirst NewsTable, Some m)],
             logs := logs w @ time_warnings env i [c] @ [LogLookupError (StorageFault m)]\<rparr>)) \<and>
   (import_loop env i cs v w = (None, v', w') \<longrightarrow>
      importedCount v' + skippedCount v' + lookup_errors (new_logs w w') =
        importedCount v + skippedCount v + length cs) \<and>
   (db_connected w \<and> next_runs w \<and> news_tbl w = [] \<and> ReadFile env p = Inr d \<and>
    Unmarshal env d = Inr cs \<and> SeedNewsFromJSON env p w = (None, w'') \<longrightarrow>
      (\<exists>a b. last (logs w'') = LogImportDone a b \<and>
             a + b + lookup_errors (new_logs w w'') = length cs))"
proof (intro conjI impI)
  assume f: "faults w = Some m # fs"
  let ?w1 = "warn_time env i c w"
  have fn: "first_news (guid c) (link c) ?w1 =
     (Inl (StorageFault m),
      ?w1\<lparr>faults := fs, trace := trace ?w1 @ [(OpFirst NewsTable, Some m)]\<rparr>)"
    using f by (intro first_news_fault) (simp add: warn_time_fields)
  have w: "log_line (LogLookupError (StorageFault m))
             (?w1\<lparr>faults := fs, trace := trace ?w1 @ [(OpFirst NewsTable, Some m)]\<rparr>)
           = w\<lparr>faults := fs,
                trace := trace w @ [(OpFirst NewsTable, Some m)],
                logs := logs w @ time_warnings env i [c] @ [LogLookupError (StorageFault m)]\<rparr>"
    by (simp add: warn_time_eq log_line_def del: time_warnings.simps)
  have ne: "StorageFault m \<noteq> ErrRecordNotFound" by simp
  show "import_loop env i (c # cs) v w =
        import_loop env (i + 1) cs v
          (w\<lparr>faults := fs,
             trace := trace w @ [(OpFirst NewsTable, Some m)],
             logs := logs w @ time_warnings env i [c] @ [LogLookupError (StorageFault m)]\<rparr>)"
    unfolding import_loop_lookup_error [OF fn ne] w ..
next
  assume a: "import_loop env i cs v w = (None, v', w')"
  from import_loop_counts [OF a] obtain ll where
    ll: "logs w' = logs w @ ll"
    "importedCount v' + skippedCount v' + lookup_errors ll =
       importedCount v + skippedCount v + length cs" by auto
  show "importedCount v' + skippedCount v' + lookup_errors (new_logs w w') =
        importedCount v + skippedCount v + length cs"
    unfolding new_logs_eq [OF ll(1)] by (rule ll(2))
next
  assume a: "db_connected w \<and> next_runs w \<and> news_tbl w = [] \<and> ReadFile env p = Inr d \<and>
    Unmarshal env d = Inr cs \<and> SeedNewsFromJSON env p w = (None, w'')"
  then show "\<exists>a b. last (logs w'') = LogImportDone a b \<and>
             a + b + lookup_errors (new_logs w w'') = length cs"
    by (intro SeedNewsFromJSON_counts [of w env p d cs w'']) simp_all
qed


text \<open>
  Two records and a lookup that times out on the first: one record imported, none
  skipped, one lookup error logged; the counters add up to 1 for 2 records.
\<close>

theorem lookup_error_drops_record_witness:
  "faults failing_world = [Some ''timeout''] \<and>
   import_loop (test_env g1_items (\<lambda>k. [])) 0 g1_items no_vars failing_world =
     (None,
      \<lparr>newsList = [to_news (item ''g1'' ''http://b'') 0], importedCount = 1, skippedCount = 0\<rparr>,
      empty_world\<lparr>trace := [(OpFirst NewsTable, Some ''timeout''), (OpFirst NewsTable, None)],
                   logs := [LogLookupError (StorageFault ''timeout'')]\<rparr>) \<and>
   lookup_errors (new_logs failing_world
       (empty_world\<lparr>trace := [(OpFirst NewsTable, Some ''timeout''), (OpFirst NewsTable, None)],
                    logs := [LogLookupError (StorageFault ''timeout'')]\<rparr>)) + 1 =
     length g1_items \<and>
   db_connected timeout_world \<and> next_runs timeout_world \<and> news_tbl timeout_world = [] \<and>
   ReadFile (test_env g1_items (\<lambda>k. [])) ''news.json'' = Inr ''news.json'' \<and>
   Unmarshal (test_env g1_items (\<lambda>k. [])) ''news.json'' = Inr g1_items \<and>
   fst (SeedNewsFromJSON (test_env g1_items (\<lambda>k. [])) ''news.json'' timeout_world) = None \<and>
   last (logs (snd (SeedNewsFromJSON (test_env g1_items (\<lambda>k. [])) ''news.json''
                      timeout_world))) = LogImportDone 1 0 \<and>
   lookup_errors (new_logs timeout_world
       (snd (SeedNewsFromJSON (test_env g1_items (\<lambda>k. [])) ''news.json'' timeout_world))) = 1 \<and>
   (1::nat) + 0 < length g1_items"
proof -
  let ?E = "test_env g1_items (\<lambda>k. [])"
  let ?V = "\<lparr>newsList = [to_news (item ''g1'' ''http://b'') 0], importedCount = 1,
             skippedCount = 0\<rparr>"
  let ?W = "empty_world\<lparr>trace := [(OpFirst NewsTable, Some ''timeout''),
                                  (OpFirst NewsTable, None)],
                        logs := [LogLookupError (StorageFault ''timeout'')]\<rparr>"
  let ?S = "SeedNewsFromJSON ?E ''news.json'' timeout_world"
  have h1: "faults failing_world = [Some ''timeout'']"
    by (simp add: failing_world_def)
  have g: "g1_items = item ''g1'' ''http://a'' # [item ''g1'' ''http://b'']"
    by (simp add: g1_items_def)
  have rest: "import_loop ?E (0 + 1) [item ''g1'' ''http://b''] no_vars
     (failing_world\<lparr>faults := [],
        trace := trace failing_world @ [(OpFirst NewsTable, Some ''timeout'')],
        logs := logs failing_world @ time_warnings ?E 0 [item ''g1'' ''http://a''] @
                [LogLookupError (StorageFault ''timeout'')]\<rparr>) = (None, ?V, ?W)"
    by code_simp
  have loop: "import_loop ?E 0 g1_items no_vars failing_world = (None, ?V, ?W)"
    using lookup_error_drops_record [THEN conjunct1, rule_format, OF h1, of ?E 0
        "item ''g1'' ''http://a''" "[item ''g1'' ''http://b'']" no_vars] rest
    by (simp only: g)
  have cnt: "importedCount ?V + skippedCount ?V + lookup_errors (new_logs failing_world ?W)
     = importedCount no_vars + skippedCount no_vars + length g1_items"
    using lookup_error_drops_record [THEN conjunct2, THEN conjunct1, rule_format, OF loop] .
  have le: "lookup_errors (new_logs failing_world ?W) + 1 = length g1_items"
    using cnt by (simp add: no_vars_def)
  have h3: "db_connected timeout_world" "next_runs timeout_world" "news_tbl timeout_world = []"
    "ReadFile ?E ''news.json'' = Inr ''news.json''" "Unmarshal ?E ''news.json'' = Inr g1_items"
    by (simp_all add: timeout_world_def empty_world_def next_runs_def test_env_def)
  have s1: "fst ?S = None" by code_simp
  then have s2: "?S = (None, snd ?S)" by (metis prod.collapse)
  from lookup_error_drops_record [THEN conjunct2, THEN conjunct2, rule_format,
      of timeout_world ?E "''news.json''" "''news.json''" g1_items "snd ?S"] h3 s2
  obtain a b where ab: "last (logs (snd ?S)) = LogImportDone a b"
    "a + b + lookup_errors (new_logs timeout_world (snd ?S)) = length g1_items" by blast
  have s3: "last (logs (snd ?S)) = LogImportDone 1 0" by code_simp
  have s4: "lookup_errors (new_logs timeout_world (snd ?S)) = 1"
    using ab s3 by (simp add: g1_items_def)
  have lt: "(1::nat) + 0 < length g1_items" by (simp add: g1_items_def)
  show ?thesis
    by (intro conjI h1 loop le h3 s1 s3 s4 lt)
qed

section \<open>Properties of the admin bootstrap\<close>

lemma count_admins_runs:
  assumes "next_runs w"
  shows "count_admins w =
     (Inr (int (length (admins w))),
      w\<lparr>faults := tl (faults w), trace := trace w @ [(OpCount UserTable, None)]\<rparr>)"
  using assms
  by (auto simp: count_admins_def admins_def db_call_def next_runs_def split: list.splits)

lemma first_user_nofault:
  "faults w = [] \<Longrightarrow> first_user e n w =
     (case find (\<lambda>u. Email u = e \<or> Username u = n) (user_tbl w) of
        None \<Rightarrow> Inl ErrRecordNotFound | Some u \<Rightarrow> Inr u,
      w\<lparr>trace := trace w @ [(OpFirst UserTable, None)]\<rparr>)"
  by (simp add: first_user_def db_call_nofault split: option.splits)

lemma create_user_nofault:
  "faults w = [] \<Longrightarrow> create_user u w =
     (None, w\<lparr>trace := trace w @ [(OpCreate UserTable 1, None)],
              user_tbl := user_tbl w @ [u]\<rparr>)"
  by (simp add: create_user_def db_call_nofault)

lemma SeedInitialAdmin_exists:
  assumes "db_connected w" "next_runs w" "admins w \<noteq> []"
  shows "SeedInitialAdmin env w =
     (None, w\<lparr>faults := tl (faults w), trace := trace w @ [(OpCount UserTable, None)],
              logs := logs w @ [LogAdminExists]\<rparr>)"
  using assms by (simp add: SeedInitialAdmin_def count_admins_runs log_line_def)

lemma SeedInitialAdmin_bad_email:
  assumes "db_connected w" "next_runs w" "admins w = []" "\<not> IsValidEmail env (adminEmail env)"
  shows "SeedInitialAdmin env w =
     (Some (Msg ''invalid admin email format''),
      w\<lparr>faults := tl (faults w), trace := trace w @ [(OpCount UserTable, None)]\<rparr>)"
  using assms by (simp add: SeedInitialAdmin_def count_admins_runs)

text \<open>
  The first call in a store without an admin that runs every statement: it either
  returns an error and leaves the accounts alone, or appends the admin account.
\<close>

lemma SeedInitialAdmin_first:
  assumes "db_connected w" "faults w = []" "admins w = []"
    "SeedInitialAdmin env w = (None, w')"
  shows "user_tbl w' = user_tbl w @ [adminUser env]" "db_connected w'" "faults w' = []"
proof -
  have nr: "next_runs w" using assms(2) by (simp add: next_runs_def)
  let ?w1 = "w\<lparr>faults := tl (faults w), trace := trace w @ [(OpCount UserTable, None)]\<rparr>"
  have f1: "faults ?w1 = []" using assms(2) by simp
  note fu = first_user_nofault [OF f1, of "adminEmail env" "adminUsername env"]
  let ?w2 = "?w1\<lparr>trace := trace ?w1 @ [(OpFirst UserTable, None)]\<rparr>"
  have f2: "faults ?w2 = []" using assms(2) by simp
  note cu = create_user_nofault [OF f2, of "adminUser env"]
  from assms(4) have "w' = log_line (LogAdminCreated (adminUsername env) (adminEmail env)
                                        (adminPassword env))
          (?w2\<lparr>trace := trace ?w2 @ [(OpCreate UserTable 1, None)],
              user_tbl := user_tbl ?w2 @ [adminUser env]\<rparr>)"
    using assms(1,2,3)
    by (simp add: SeedInitialAdmin_def count_admins_runs [OF nr] first_user_nofault
        create_user_nofault split: if_splits option.splits)
  then show "user_tbl w' = user_tbl w @ [adminUser env]" "db_connected w'" "faults w' = []"
    using assms(1,2) by (simp_all add: log_line_fields)
qed

lemma admins_append: "user_tbl w' = user_tbl w @ us \<Longrightarrow>
  admins w' = admins w @ filter (\<lambda>u. Role u = ''admin'') us"
  by (simp add: admins_def)

text \<open>
  C7. In a connected store that answers the count, \<^verbatim>\<open>SeedInitialAdmin\<close> returns no
  error and changes no account when an account with the role admin exists. So two calls
  in a store without an admin that runs every statement, the first of which returns no
  error, leave exactly one admin account: the first call appends it and the second call
  is skipped. When no admin exists and the validator rejects the configured email
  address, the call returns the error "invalid admin email format" after the count, and
  no account is created.
\<close>

theorem admin_bootstrap_once:
  "(db_connected w \<and> next_runs w \<and> admins w \<noteq> [] \<longrightarrow>
      SeedInitialAdmin env w =
        (None, w\<lparr>faults := tl (faults w), trace := trace w @ [(OpCount UserTable, None)],
                 logs := logs w @ [LogAdminExists]\<rparr>)) \<and>
   (db_connected w \<and> faults w = [] \<and> admins w = [] \<and>
    fst (SeedInitialAdmin env w) = None \<longrightarrow>
      user_tbl (snd (SeedInitialAdmin env w)) = user_tbl w @ [adminUser env] \<and>
      fst (SeedInitialAdmin env (snd (SeedInitialAdmin env w))) = None \<and>
      user_tbl (snd (SeedInitialAdmin env (snd (SeedInitialAdmin env w)))) =
        user_tbl w @ [adminUser env] \<and>
      admins (snd (SeedInitialAdmin env (snd (SeedInitialAdmin env w)))) = [adminUser env]) \<and>
   (db_connected w \<and> next_runs w \<and> admins w = [] \<and> \<not> IsValidEmail env (adminEmail env) \<longrightarrow>
      SeedInitialAdmin env w =
        (Some (Msg ''invalid admin email format''),
         w\<lparr>faults := tl (faults w), trace := trace w @ [(OpCount UserTable, None)]\<rparr>) \<and>
      user_tbl (snd (SeedInitialAdmin env w)) = user_tbl w)"
proof (intro conjI impI)
  assume "db_connected w \<and> next_runs w \<and> admins w \<noteq> []"
  then show "SeedInitialAdmin env w =
        (None, w\<lparr>faults := tl (faults w), trace := trace w @ [(OpCount UserTable, None)],
                 logs := logs w @ [LogAdminExists]\<rparr>)"
    by (intro SeedInitialAdmin_exists) simp_all
next
  assume a: "db_connected w \<and> next_runs w \<and> admins w = [] \<and>
             \<not> IsValidEmail env (adminEmail env)"
  then have e: "SeedInitialAdmin env w =
        (Some (Msg ''invalid admin email format''),
         w\<lparr>faults := tl (faults w), trace := trace w @ [(OpCount UserTable, None)]\<rparr>)"
    by (intro SeedInitialAdmin_bad_email) simp_all
  show "SeedInitialAdmin env w =
        (Some (Msg ''invalid admin email format''),
         w\<lparr>faults := tl (faults w), trace := trace w @ [(OpCount UserTable, None)]\<rparr>)"
    by (rule e)
  show "user_tbl (snd (SeedInitialAdmin env w)) = user_tbl w"
    unfolding e by simp
next
  assume a: "db_connected w \<and> faults w = [] \<and> admins w = [] \<and>
             fst (SeedInitialAdmin env w) = None"
  let ?w1 = "snd (SeedInitialAdmin env w)"
  from a have s: "SeedInitialAdmin env w = (None, ?w1)" by (metis prod.collapse)
  from a have c: "db_connected w" "faults w = []" "admins w = []" by simp_all
  note f = SeedInitialAdmin_first [OF c s]
  have ad: "admins ?w1 = [adminUser env]"
    using admins_append [OF f(1)] c(3) by (simp add: adminUser_def)
  have nr: "next_runs ?w1" using f(3) by (simp add: next_runs_def)
  have ne: "admins ?w1 \<noteq> []" using ad by simp
  note second = SeedInitialAdmin_exists [OF f(2) nr ne, of env]
  show "user_tbl ?w1 = user_tbl w @ [adminUser env]" by (rule f(1))
  show "fst (SeedInitialAdmin env ?w1) = None" unfolding second by simp
  show "user_tbl (snd (SeedInitialAdmin env ?w1)) = user_tbl w @ [adminUser env]"
    unfolding second using f(1) by simp
  show "admins (snd (SeedInitialAdmin env ?w1)) = [adminUser env]"
    unfolding second using ad by (simp add: admins_def)
qed


text \<open>
  With the default configuration two calls on the empty store leave the one default admin
  account; a call on a store that has an admin changes no account; with
  \<^verbatim>\<open>ADMIN_EMAIL=not-an-email\<close> the call is rejected and the store has no account.
\<close>

theorem admin_bootstrap_once_witness:
  "db_connected admin_world \<and> next_runs admin_world \<and> admins admin_world \<noteq> [] \<and>
   SeedInitialAdmin (test_env [] (\<lambda>k. [])) admin_world =
     (None, admin_world\<lparr>faults := [], trace := [(OpCount UserTable, None)],
                        logs := [LogAdminExists]\<rparr>) \<and>
   db_connected empty_world \<and> faults empty_world = [] \<and> admins empty_world = [] \<and>
   fst (SeedInitialAdmin (test_env [] (\<lambda>k. [])) empty_world) = None \<and>
   user_tbl (snd (SeedInitialAdmin (test_env [] (\<lambda>k. []))
                    (snd (SeedInitialAdmin (test_env [] (\<lambda>k. [])) empty_world)))) =
     [\<lparr>Username = ''admin'', Email = ''admin@easypeek.com'', Password = ''admin123456'',
       Role = ''admin'', Status = ''active''\<rparr>] \<and>
   next_runs empty_world \<and>
   adminEmail (test_env [] bad_email_vars) = ''not-an-email'' \<and>
   \<not> IsValidEmail (test_env [] bad_email_vars) (adminEmail (test_env [] bad_email_vars)) \<and>
   SeedInitialAdmin (test_env [] bad_email_vars) empty_world =
     (Some (Msg ''invalid admin email format''),
      empty_world\<lparr>faults := [], trace := [(OpCount UserTable, None)]\<rparr>) \<and>
   user_tbl (snd (SeedInitialAdmin (test_env [] bad_email_vars) empty_world)) = []"
proof -
  let ?E = "test_env [] (\<lambda>k. [])" and ?B = "test_env [] bad_email_vars"
  have a: "db_connected admin_world" "next_runs admin_world" "admins admin_world \<noteq> []"
    by (simp_all add: admin_world_def empty_world_def next_runs_def admins_def)
  have af: "faults admin_world = []" "trace admin_world = []" "logs admin_world = []"
    by (simp_all add: admin_world_def empty_world_def)
  have a1: "SeedInitialAdmin ?E admin_world =
     (None, admin_world\<lparr>faults := [], trace := [(OpCount UserTable, None)],
                        logs := [LogAdminExists]\<rparr>)"
    using admin_bootstrap_once [THEN conjunct1, rule_format, of admin_world ?E] a
    by (simp add: af)
  have e: "db_connected empty_world" "faults empty_world = []" "admins empty_world = []"
    "next_runs empty_world"
    by (simp_all add: empty_world_def next_runs_def admins_def)
  have ef: "trace empty_world = []" "user_tbl empty_world = []"
    by (simp_all add: empty_world_def)
  have ok: "fst (SeedInitialAdmin ?E empty_world) = None" by code_simp
  have au: "adminUser ?E = \<lparr>Username = ''admin'', Email = ''admin@easypeek.com'',
                            Password = ''admin123456'', Role = ''admin'', Status = ''active''\<rparr>"
    by (simp add: adminUser_def adminUsername_def adminEmail_def adminPassword_def test_env_def)
  have twice: "user_tbl (snd (SeedInitialAdmin ?E (snd (SeedInitialAdmin ?E empty_world)))) =
     [\<lparr>Username = ''admin'', Email = ''admin@easypeek.com'', Password = ''admin123456'',
       Role = ''admin'', Status = ''active''\<rparr>]"
    using admin_bootstrap_once [THEN conjunct2, THEN conjunct1, rule_format,
        of empty_world ?E] e ok
    by (simp add: au ef)
  have be: "adminEmail ?B = ''not-an-email''"
    by (simp add: adminEmail_def test_env_def bad_email_vars_def)
  have bv: "\<not> IsValidEmail ?B (adminEmail ?B)"
    unfolding be by (simp add: test_env_def)
  note b = admin_bootstrap_once [THEN conjunct2, THEN conjunct2, rule_format,
      of empty_world ?B, OF conjI [OF e(1) conjI [OF e(4) conjI [OF e(3) bv]]]]
  have b1: "SeedInitialAdmin ?B empty_world =
     (Some (Msg ''invalid admin email format''),
      empty_world\<lparr>faults := [], trace := [(OpCount UserTable, None)]\<rparr>)"
    using b [THEN conjunct1] by (simp add: e ef)
  have b2: "user_tbl (snd (SeedInitialAdmin ?B empty_world)) = []"
    using b [THEN conjunct2] by (simp add: ef)
  show ?thesis
    by (intro conjI a a1 e ok twice be bv b1 b2)
qed

section \<open>Storage faults\<close>

lemma Wrap_neq: "Wrap s e \<noteq> e"
  by (induction e) auto

lemma caused_by_refl: "caused_by c c"
  by (cases c) simp_all


lemma not_lookup_simps [simp]:
  "not_lookup (OpCount tbl, f)" "not_lookup (OpBegin, f)" "not_lookup (OpCreate tbl k, f)"
  "not_lookup (OpCommit, f)" "not_lookup (OpRollback, f)"
  by (simp_all add: not_lookup_def)

















end
